theory Spec2Isabelle
  imports Main "HOL-Library.Word" "HOL-Library.Monad_Syntax"
begin

unbundle bit_operations_syntax

section \<open>The allocator of malloclab.c\<close>

text \<open>
  Pointers and \<open>size_t\<close> are 64-bit words, \<open>unsigned int\<close> is a 32-bit word and the
  arena is byte addressed.  A word access reads or writes four bytes, least
  significant byte first.
\<close>

type_synonym ptr = "64 word"
type_synonym size_t = "64 word"
type_synonym uint = "32 word"
type_synonym byte = "8 word"

subsection \<open>Global variables\<close>

text \<open>
  The record holds the static variables of malloclab.c (\<open>heap_listp\<close>, \<open>root\<close>,
  \<open>root1\<close> .. \<open>root10\<close>), the bytes of memory, and the two variables of the
  arena-growth collaborator (memlib): the current break and the limit of the arena.
\<close>

record heap =
  mem :: "ptr \<Rightarrow> byte"
  mem_brk :: ptr
  mem_max_addr :: ptr
  heap_listp :: ptr
  root :: ptr
  root1 :: ptr
  root2 :: ptr
  root3 :: ptr
  root4 :: ptr
  root5 :: ptr
  root6 :: ptr
  root7 :: ptr
  root8 :: ptr
  root9 :: ptr
  root10 :: ptr

subsection \<open>Constants and macros\<close>

abbreviation NULL :: ptr where "NULL \<equiv> 0"
abbreviation WSIZE :: size_t where "WSIZE \<equiv> 4"
abbreviation DSIZE :: size_t where "DSIZE \<equiv> 8"
abbreviation CHUNKSIZE :: size_t where "CHUNKSIZE \<equiv> 4096"

definition MAX_sz :: "size_t \<Rightarrow> size_t \<Rightarrow> size_t" where
  "MAX_sz x y = (if x > y then x else y)"

definition PACK :: "size_t \<Rightarrow> size_t \<Rightarrow> size_t" where
  "PACK sz alloc = sz OR alloc"

definition load32 :: "(ptr \<Rightarrow> byte) \<Rightarrow> ptr \<Rightarrow> uint" where
  "load32 m p = ucast (m p) OR push_bit 8 (ucast (m (p + 1)))
     OR push_bit 16 (ucast (m (p + 2))) OR push_bit 24 (ucast (m (p + 3)))"

definition store32 :: "(ptr \<Rightarrow> byte) \<Rightarrow> ptr \<Rightarrow> uint \<Rightarrow> (ptr \<Rightarrow> byte)" where
  "store32 m p v = m(p := ucast v, p + 1 := ucast (drop_bit 8 v),
     p + 2 := ucast (drop_bit 16 v), p + 3 := ucast (drop_bit 24 v))"

definition GET :: "heap \<Rightarrow> ptr \<Rightarrow> uint" where
  "GET s p = load32 (mem s) p"

definition PUT :: "heap \<Rightarrow> ptr \<Rightarrow> uint \<Rightarrow> heap" where
  "PUT s p val = s\<lparr>mem := store32 (mem s) p val\<rparr>"

definition GET_SIZE :: "heap \<Rightarrow> ptr \<Rightarrow> uint" where
  "GET_SIZE s p = GET s p AND NOT 7"

definition GET_ALLOC :: "heap \<Rightarrow> ptr \<Rightarrow> uint" where
  "GET_ALLOC s p = GET s p AND 1"

definition GET_PREV_ALLOC :: "heap \<Rightarrow> ptr \<Rightarrow> uint" where
  "GET_PREV_ALLOC s p = GET s p AND 2"

definition HDRP :: "ptr \<Rightarrow> ptr" where
  "HDRP bp = bp - WSIZE"

definition FTRP :: "heap \<Rightarrow> ptr \<Rightarrow> ptr" where
  "FTRP s bp = bp + ucast (GET_SIZE s (HDRP bp)) - DSIZE"

definition NEXT_BLKP :: "heap \<Rightarrow> ptr \<Rightarrow> ptr" where
  "NEXT_BLKP s bp = bp + ucast (GET_SIZE s (bp - WSIZE))"

definition PREV_BLKP :: "heap \<Rightarrow> ptr \<Rightarrow> ptr" where
  "PREV_BLKP s bp = bp - ucast (GET_SIZE s (bp - DSIZE))"

text \<open>
  \<open>ADDR2OF\<close> has no outer parentheses, so in \<open>(unsigned int)ADDR2OF(val)\<close> the cast
  applies to \<open>val\<close> alone; the difference is then taken in \<open>size_t\<close> and truncated
  by the store.
\<close>

definition OF2ADDR :: "uint \<Rightarrow> heap \<Rightarrow> ptr" where
  "OF2ADDR offset s = ucast offset + heap_listp s"

definition GET_PREV :: "heap \<Rightarrow> ptr \<Rightarrow> ptr" where
  "GET_PREV s bp = OF2ADDR (GET s bp) s"

definition GET_NEXT :: "heap \<Rightarrow> ptr \<Rightarrow> ptr" where
  "GET_NEXT s bp = OF2ADDR (GET s (bp + WSIZE)) s"

definition SET_PREV :: "heap \<Rightarrow> ptr \<Rightarrow> ptr \<Rightarrow> heap" where
  "SET_PREV s bp val = PUT s bp (ucast (ucast (ucast val :: uint) - heap_listp s :: size_t))"

definition SET_NEXT :: "heap \<Rightarrow> ptr \<Rightarrow> ptr \<Rightarrow> heap" where
  "SET_NEXT s bp val =
     PUT s (bp + WSIZE) (ucast (ucast (ucast val :: uint) - heap_listp s :: size_t))"

subsection \<open>Library and collaborator functions\<close>

text \<open>
  \<open>memcpy\<close> and \<open>memset\<close> of the C library, on the byte memory: byte \<open>i\<close> of the
  destination, for \<open>i < n\<close>, receives byte \<open>i\<close> of the source (or the fill byte).
\<close>

definition memcpy :: "(ptr \<Rightarrow> byte) \<Rightarrow> ptr \<Rightarrow> ptr \<Rightarrow> size_t \<Rightarrow> (ptr \<Rightarrow> byte)" where
  "memcpy m dst src n = (\<lambda>a. if a - dst < n then m (src + (a - dst)) else m a)"

definition memset :: "(ptr \<Rightarrow> byte) \<Rightarrow> ptr \<Rightarrow> byte \<Rightarrow> size_t \<Rightarrow> (ptr \<Rightarrow> byte)" where
  "memset m p c n = (\<lambda>a. if a - p < n then c else m a)"

text \<open>
  Modelled from the spec: \<open>mem_sbrk\<close> of memlib.c is not among the sources.  The
  spec gives it one capability: extend the managed region by exactly K bytes and
  return the start address of the new region, or signal failure when the environment
  cannot provide more memory.  Failure is the pointer \<open>(void *)-1\<close>, the value the
  callers in malloclab.c test for; the region is exhausted when the new break would
  pass \<open>mem_max_addr\<close>.
\<close>

definition mem_sbrk :: "heap \<Rightarrow> size_t \<Rightarrow> ptr \<times> heap" where
  "mem_sbrk s incr =
     (if unat (mem_brk s) + unat incr > unat (mem_max_addr s) then (- 1, s)
      else (mem_brk s, s\<lparr>mem_brk := mem_brk s + incr\<rparr>))"

subsection \<open>Free-list buckets\<close>

definition size2ptr :: "heap \<Rightarrow> size_t \<Rightarrow> ptr" where
  "size2ptr s sz =
     (if sz \<le> 16 then root1 s
      else if sz \<le> 32 then root2 s
      else if sz \<le> 64 then root3 s
      else if sz \<le> 128 then root4 s
      else if sz \<le> 256 then root5 s
      else if sz \<le> 512 then root6 s
      else if sz \<le> 1024 then root7 s
      else if sz \<le> 2048 then root8 s
      else if sz \<le> 4096 then root9 s
      else root10 s)"

definition update_root :: "heap \<Rightarrow> size_t \<Rightarrow> heap" where
  "update_root s sz =
     (if sz \<le> 16 then s\<lparr>root1 := root s\<rparr>
      else if sz \<le> 32 then s\<lparr>root2 := root s\<rparr>
      else if sz \<le> 64 then s\<lparr>root3 := root s\<rparr>
      else if sz \<le> 128 then s\<lparr>root4 := root s\<rparr>
      else if sz \<le> 256 then s\<lparr>root5 := root s\<rparr>
      else if sz \<le> 512 then s\<lparr>root6 := root s\<rparr>
      else if sz \<le> 1024 then s\<lparr>root7 := root s\<rparr>
      else if sz \<le> 2048 then s\<lparr>root8 := root s\<rparr>
      else if sz \<le> 4096 then s\<lparr>root9 := root s\<rparr>
      else s\<lparr>root10 := root s\<rparr>)"

definition insert_list :: "heap \<Rightarrow> ptr \<Rightarrow> size_t \<Rightarrow> heap" where
  "insert_list s0 bp sz =
     (let s1 = s0\<lparr>root := size2ptr s0 sz\<rparr>;
          s2 = SET_PREV s1 bp (heap_listp s1);
          s3 = SET_NEXT s2 bp (root s2);
          s4 = (if root s3 \<noteq> heap_listp s3 then SET_PREV s3 (root s3) bp else s3);
          s5 = s4\<lparr>root := bp\<rparr>
      in update_root s5 sz)"

definition remove_list :: "heap \<Rightarrow> ptr \<Rightarrow> size_t \<Rightarrow> heap" where
  "remove_list s0 bp sz =
     (let prev = GET_PREV s0 bp;
          next = GET_NEXT s0 bp;
          s1 = s0\<lparr>root := size2ptr s0 sz\<rparr>;
          s2 = (if prev \<noteq> heap_listp s1 then SET_NEXT s1 prev next else s1);
          s3 = (if next \<noteq> heap_listp s2 then SET_PREV s2 next prev else s2);
          s4 = (if bp = root s3 then s3\<lparr>root := next\<rparr> else s3)
      in update_root s4 sz)"

subsection \<open>Coalescing, growth and initialisation\<close>

definition coalesce :: "heap \<Rightarrow> ptr \<Rightarrow> ptr \<times> heap" where
  "coalesce s0 bp0 =
     (let prev_alloc = GET_PREV_ALLOC s0 (HDRP bp0);
          next_alloc = GET_ALLOC s0 (HDRP (NEXT_BLKP s0 bp0));
          size0 = (ucast (GET_SIZE s0 (HDRP bp0)) :: size_t);
          (bp, sz, s) =
            (if prev_alloc \<noteq> 0 \<and> next_alloc \<noteq> 0 then (bp0, size0, s0)
             else if prev_alloc \<noteq> 0 \<and> next_alloc = 0 then
               (let sz = size0 + ucast (GET_SIZE s0 (HDRP (NEXT_BLKP s0 bp0)));
                    s1 = remove_list s0 (NEXT_BLKP s0 bp0)
                           (ucast (GET_SIZE s0 (HDRP (NEXT_BLKP s0 bp0))));
                    s2 = PUT s1 (HDRP bp0) (ucast (PACK sz 2));
                    s3 = PUT s2 (FTRP s2 bp0) (ucast (PACK sz 0))
                in (bp0, sz, s3))
             else if prev_alloc = 0 \<and> next_alloc \<noteq> 0 then
               (let sz = size0 + ucast (GET_SIZE s0 (HDRP (PREV_BLKP s0 bp0)));
                    s1 = remove_list s0 (PREV_BLKP s0 bp0)
                           (ucast (GET_SIZE s0 (HDRP (PREV_BLKP s0 bp0))));
                    s2 = PUT s1 (FTRP s1 bp0) (ucast (PACK sz 0));
                    s3 = PUT s2 (HDRP (PREV_BLKP s2 bp0))
                           (ucast (PACK sz (ucast (GET_PREV_ALLOC s2 (HDRP (PREV_BLKP s2 bp0))))))
                in (PREV_BLKP s3 bp0, sz, s3))
             else
               (let sz = size0 + ucast (GET_SIZE s0 (HDRP (PREV_BLKP s0 bp0))
                                            + GET_SIZE s0 (FTRP s0 (NEXT_BLKP s0 bp0)));
                    s1 = remove_list s0 (NEXT_BLKP s0 bp0)
                           (ucast (GET_SIZE s0 (HDRP (NEXT_BLKP s0 bp0))));
                    s2 = remove_list s1 (PREV_BLKP s1 bp0)
                           (ucast (GET_SIZE s1 (HDRP (PREV_BLKP s1 bp0))));
                    s3 = PUT s2 (HDRP (PREV_BLKP s2 bp0))
                           (ucast (PACK sz (ucast (GET_PREV_ALLOC s2 (HDRP (PREV_BLKP s2 bp0))))));
                    s4 = PUT s3 (FTRP s3 (NEXT_BLKP s3 bp0)) (ucast (PACK sz 0))
                in (PREV_BLKP s4 bp0, sz, s4)));
          s' = insert_list s bp sz;
          s'' = PUT s' (HDRP (NEXT_BLKP s' bp)) (GET s' (HDRP (NEXT_BLKP s' bp)) AND NOT 2)
      in (bp, s''))"

definition extend_heap :: "heap \<Rightarrow> size_t \<Rightarrow> ptr \<times> heap" where
  "extend_heap s0 words =
     (let sz = (if words mod 2 \<noteq> 0 then (words + 1) * WSIZE else words * WSIZE);
          (bp, s1) = mem_sbrk s0 sz
      in if bp = - 1 then (NULL, s1)
         else
           (let s2 = PUT s1 (HDRP bp) (ucast (PACK sz (ucast (GET_PREV_ALLOC s1 (HDRP bp)))));
                s3 = PUT s2 (FTRP s2 bp) (ucast (PACK sz 0));
                s4 = PUT s3 (HDRP (NEXT_BLKP s3 bp)) (ucast (PACK 0 1))
            in coalesce s4 bp))"

definition mm_init :: "heap \<Rightarrow> int \<times> heap" where
  "mm_init s0 =
     (let (p, s1) = mem_sbrk s0 (4 * WSIZE);
          s2 = s1\<lparr>heap_listp := p\<rparr>
      in if p = - 1 then (- 1, s2)
         else
           (let s3 = PUT s2 (heap_listp s2) 0;
                s4 = PUT s3 (heap_listp s3 + 1 * WSIZE) (ucast (PACK DSIZE 3));
                s5 = PUT s4 (heap_listp s4 + 2 * WSIZE) (ucast (PACK DSIZE 3));
                s6 = PUT s5 (heap_listp s5 + 3 * WSIZE) (ucast (PACK 0 3));
                s7 = s6\<lparr>heap_listp := heap_listp s6 + 2 * WSIZE\<rparr>;
                s8 = s7\<lparr>root := heap_listp s7\<rparr>;
                s9 = s8\<lparr>root1 := root s8, root2 := root s8, root3 := root s8,
                        root4 := root s8, root5 := root s8, root6 := root s8,
                        root7 := root s8, root8 := root s8, root9 := root s8,
                        root10 := root s8\<rparr>;
                (r, s10) = extend_heap s9 (CHUNKSIZE div WSIZE)
            in if r = NULL then (- 1, s10) else (0, s10)))"

subsection \<open>Placement and fit search\<close>

definition place :: "heap \<Rightarrow> ptr \<Rightarrow> size_t \<Rightarrow> heap" where
  "place s0 bp asize =
     (let csize = (ucast (GET_SIZE s0 (HDRP bp)) :: size_t);
          s1 = remove_list s0 bp csize
      in if csize - asize \<ge> 2 * DSIZE then
           (let s2 = PUT s1 (HDRP bp)
                       (ucast (PACK asize (ucast (1 + GET_PREV_ALLOC s1 (HDRP bp)))));
                bp' = NEXT_BLKP s2 bp;
                s3 = insert_list s2 bp' (csize - asize);
                s4 = PUT s3 (HDRP bp') (ucast (PACK (csize - asize) 2));
                s5 = PUT s4 (FTRP s4 bp') (ucast (PACK (csize - asize) 0))
            in s5)
         else
           (let s2 = PUT s1 (HDRP bp)
                       (ucast (PACK csize (ucast (1 + GET_PREV_ALLOC s1 (HDRP bp)))));
                s3 = PUT s2 (HDRP (NEXT_BLKP s2 bp)) (GET s2 (HDRP (NEXT_BLKP s2 bp)) OR 2)
            in s3))"

text \<open>
  The inner loop of \<open>find_fit\<close> follows the \<open>next\<close> links of one bucket until it
  reaches \<open>heap_listp\<close>; on a cyclic list it does not return, which is the value
  \<open>None\<close>.  \<open>Some NULL\<close> stands for a bucket scanned to its end without a fit (the
  loop variable \<open>bp\<close> is never \<open>NULL\<close> when a fit is returned from a well-formed
  list, and the callers test the result against \<open>NULL\<close> only).
\<close>

datatype scan = Fit ptr | Exhausted

partial_function (option) scan_list :: "heap \<Rightarrow> size_t \<Rightarrow> ptr \<Rightarrow> scan option" where
  "scan_list s asize bp =
     (if bp \<noteq> heap_listp s then
        if asize \<le> ucast (GET_SIZE s (HDRP bp)) then Some (Fit bp)
        else scan_list s asize (GET_NEXT s bp)
      else Some Exhausted)"

partial_function (option) find_fit_loop :: "heap \<Rightarrow> size_t \<Rightarrow> size_t \<Rightarrow> ptr \<Rightarrow> ptr option" where
  "find_fit_loop s asize sz bp =
     (if sz \<le> 8192 then
        do {
          r \<leftarrow> scan_list s asize bp;
          case r of
            Fit b \<Rightarrow> Some b
          | Exhausted \<Rightarrow> find_fit_loop s asize (push_bit 1 sz) (size2ptr s (push_bit 1 sz))
        }
      else Some NULL)"

definition find_fit :: "heap \<Rightarrow> size_t \<Rightarrow> ptr option" where
  "find_fit s asize = find_fit_loop s asize 0x10 (size2ptr s 0x10)"

subsection \<open>The public functions\<close>

definition malloc :: "heap \<Rightarrow> size_t \<Rightarrow> (ptr \<times> heap) option" where
  "malloc s0 sz =
     (let s1 = (if heap_listp s0 = 0 then snd (mm_init s0) else s0)
      in if sz = 0 then Some (NULL, s1)
         else
           (let asize = (if sz \<le> WSIZE then 2 * DSIZE
                         else DSIZE * ((sz + WSIZE + (DSIZE - 1)) div DSIZE))
            in do {
                 bp \<leftarrow> find_fit s1 asize;
                 if bp \<noteq> NULL then Some (bp, place s1 bp asize)
                 else
                   (let extendsize = MAX_sz asize CHUNKSIZE;
                        (bp', s2) = extend_heap s1 (extendsize div WSIZE)
                    in if bp' = NULL then Some (NULL, s2)
                       else Some (bp', place s2 bp' asize))
               }))"

definition free :: "heap \<Rightarrow> ptr \<Rightarrow> heap" where
  "free s0 bp =
     (if bp = 0 then s0
      else
        (let sz = (ucast (GET_SIZE s0 (HDRP bp)) :: size_t);
             s1 = (if heap_listp s0 = 0 then snd (mm_init s0) else s0);
             s2 = PUT s1 (HDRP bp) (ucast (PACK sz 0 OR ucast (GET_PREV_ALLOC s1 (HDRP bp))));
             s3 = PUT s2 (FTRP s2 bp) (ucast (PACK sz 0))
         in snd (coalesce s3 bp)))"

definition realloc :: "heap \<Rightarrow> ptr \<Rightarrow> size_t \<Rightarrow> (ptr \<times> heap) option" where
  "realloc s0 oldptr sz =
     (if sz = 0 then Some (0, free s0 oldptr)
      else if oldptr = NULL then malloc s0 sz
      else
        do {
          (newptr, s1) \<leftarrow> malloc s0 sz;
          if newptr = 0 then Some (0, s1)
          else
            (let oldsize0 = (ucast (GET_SIZE s1 (HDRP oldptr)) :: size_t);
                 oldsize = (if sz < oldsize0 then sz else oldsize0);
                 s2 = s1\<lparr>mem := memcpy (mem s1) newptr oldptr oldsize\<rparr>;
                 s3 = free s2 oldptr
             in Some (newptr, s3))
        })"

definition calloc :: "heap \<Rightarrow> size_t \<Rightarrow> size_t \<Rightarrow> (ptr \<times> heap) option" where
  "calloc s0 nmemb sz =
     (let bytes = nmemb * sz
      in do {
           (newptr, s1) \<leftarrow> malloc s0 bytes;
           Some (newptr, s1\<lparr>mem := memset (mem s1) newptr 0 bytes\<rparr>)
         })"


section \<open>Concrete arenas\<close>

text \<open>
  Memory given as a table of 32-bit words over a background: \<open>words al m\<close> is \<open>m\<close>
  with the word \<open>v\<close> stored at address \<open>p\<close> for every \<open>(p, v)\<close> of \<open>al\<close>.  \<open>ins\<close>
  keeps the table sorted by address and \<open>sepk\<close> says that an address coincides with
  or lies at least four bytes from every address of the table.
\<close>

fun words :: "(ptr \<times> uint) list \<Rightarrow> (ptr \<Rightarrow> byte) \<Rightarrow> (ptr \<Rightarrow> byte)" where
  "words [] m = m"
| "words ((p, v) # al) m = store32 (words al m) p v"

fun ins :: "ptr \<Rightarrow> uint \<Rightarrow> (ptr \<times> uint) list \<Rightarrow> (ptr \<times> uint) list" where
  "ins p v [] = [(p, v)]"
| "ins p v ((k, w) # al) =
     (if p = k then (p, v) # al
      else if p < k then (p, v) # (k, w) # al
      else (k, w) # ins p v al)"

fun sepk :: "ptr \<Rightarrow> (ptr \<times> uint) list \<Rightarrow> bool" where
  "sepk p [] = True"
| "sepk p ((k, w) # al) = ((p = k \<or> (4 \<le> k - p \<and> 4 \<le> p - k)) \<and> sepk p al)"

text \<open>
  An allocator that has never been initialised: all static variables are zero, the
  arena is empty (\<open>mem_brk\<close> at its start \<open>lo\<close>) and may grow up to \<open>hi\<close>.
\<close>

definition boot :: "(ptr \<Rightarrow> byte) \<Rightarrow> ptr \<Rightarrow> ptr \<Rightarrow> heap" where
  "boot m lo hi = \<lparr>mem = words [] m, mem_brk = lo, mem_max_addr = hi, heap_listp = 0,
     root = 0, root1 = 0, root2 = 0, root3 = 0, root4 = 0, root5 = 0, root6 = 0, root7 = 0,
     root8 = 0, root9 = 0, root10 = 0\<rparr>"

definition heap_fresh :: heap where
  "heap_fresh = boot (\<lambda>_. 0) 0x10000 0x100000"

text \<open>
  The states below are the arenas reached from \<open>heap_fresh\<close> (and from an arena of
  exactly 4112 bytes, \<open>heap_full\<close>) by the calls stated in the lemmas of the section
  on concrete runs.
\<close>

definition heap_init :: heap where
  "heap_init =
     \<lparr>mem = words
         [(0x10000, 0), (0x10004, 11), (0x10008, 11), (0x1000C, 4098),
          (0x10010, 0), (0x10014, 0), (0x11008, 4096), (0x1100C, 1)]
         (\<lambda>_. 0),
       mem_brk = 0x11010, mem_max_addr = 0x100000, heap_listp = 0x10008, root = 0x10010,
       root1 = 0x10008, root2 = 0x10008, root3 = 0x10008, root4 = 0x10008,
       root5 = 0x10008, root6 = 0x10008, root7 = 0x10008, root8 = 0x10008,
       root9 = 0x10010, root10 = 0x10008\<rparr>"

definition ovf_s1 :: heap where
  "ovf_s1 =
     \<lparr>mem = words
         [(0x10000, 0), (0x10004, 11), (0x10008, 11), (0x1000C, 11),
          (0x10010, 0), (0x10014, 4090), (0x10018, 0), (0x1001C, 0),
          (0x11008, 4088), (0x1100C, 1)]
         (\<lambda>_. 0),
       mem_brk = 0x11010, mem_max_addr = 0x100000, heap_listp = 0x10008, root = 0x10018,
       root1 = 0x10008, root2 = 0x10008, root3 = 0x10008, root4 = 0x10008,
       root5 = 0x10008, root6 = 0x10008, root7 = 0x10008, root8 = 0x10008,
       root9 = 0x10018, root10 = 0x10008\<rparr>"

definition ovf_s2 :: heap where
  "ovf_s2 =
     \<lparr>mem = words
         [(0x10000, 0), (0x10004, 11), (0x10008, 11), (0x1000C, 11),
          (0x10010, 0), (0x10014, 19), (0x10018, 0), (0x1001C, 0),
          (0x10024, 4074), (0x10028, 0), (0x1002C, 0), (0x11008, 4072),
          (0x1100C, 1)]
         (\<lambda>_. 0),
       mem_brk = 0x11010, mem_max_addr = 0x100000, heap_listp = 0x10008, root = 0x10028,
       root1 = 0x10008, root2 = 0x10008, root3 = 0x10008, root4 = 0x10008,
       root5 = 0x10008, root6 = 0x10008, root7 = 0x10008, root8 = 0x10008,
       root9 = 0x10028, root10 = 0x10008\<rparr>"

definition ovf_s3 :: heap where
  "ovf_s3 =
     \<lparr>mem = words
         [(0x10000, 0), (0x10004, 11), (0x10008, 11), (0x1000C, 10),
          (0x10010, 0), (0x10014, 0), (0x10018, 0), (0x1001C, 0),
          (0x10024, 4074), (0x10028, 0), (0x1002C, 0), (0x11008, 4072),
          (0x1100C, 1)]
         (\<lambda>_. 0),
       mem_brk = 0x11010, mem_max_addr = 0x100000, heap_listp = 0x10008, root = 0x10010,
       root1 = 0x10010, root2 = 0x10008, root3 = 0x10008, root4 = 0x10008,
       root5 = 0x10008, root6 = 0x10008, root7 = 0x10008, root8 = 0x10008,
       root9 = 0x10028, root10 = 0x10008\<rparr>"

definition heap_full :: heap where
  "heap_full =
     \<lparr>mem = words
         [(0x10000, 0), (0x10004, 11), (0x10008, 11), (0x1000C, 4098),
          (0x10010, 0), (0x10014, 0), (0x11008, 4096), (0x1100C, 1)]
         (\<lambda>_. 1),
       mem_brk = 0x11010, mem_max_addr = 0x11010, heap_listp = 0x10008, root = 0x10010,
       root1 = 0x10008, root2 = 0x10008, root3 = 0x10008, root4 = 0x10008,
       root5 = 0x10008, root6 = 0x10008, root7 = 0x10008, root8 = 0x10008,
       root9 = 0x10010, root10 = 0x10008\<rparr>"

definition rs1 :: heap where
  "rs1 =
     \<lparr>mem = words
         [(0x10000, 0), (0x10004, 11), (0x10008, 11), (0x1000C, 19),
          (0x10010, 0), (0x10014, 0), (0x1001C, 4082), (0x10020, 0),
          (0x10024, 0), (0x11008, 4080), (0x1100C, 1)]
         (\<lambda>_. 0),
       mem_brk = 0x11010, mem_max_addr = 0x100000, heap_listp = 0x10008, root = 0x10020,
       root1 = 0x10008, root2 = 0x10008, root3 = 0x10008, root4 = 0x10008,
       root5 = 0x10008, root6 = 0x10008, root7 = 0x10008, root8 = 0x10008,
       root9 = 0x10020, root10 = 0x10008\<rparr>"

definition rs2 :: heap where
  "rs2 =
     \<lparr>mem = words
         [(0x10000, 0), (0x10004, 11), (0x10008, 11), (0x1000C, 19),
          (0x10010, 0), (0x10014, 0), (0x1001C, 107), (0x10020, 0),
          (0x10024, 0), (0x10084, 3978), (0x10088, 0), (0x1008C, 0),
          (0x11008, 3976), (0x1100C, 1)]
         (\<lambda>_. 0),
       mem_brk = 0x11010, mem_max_addr = 0x100000, heap_listp = 0x10008, root = 0x10088,
       root1 = 0x10008, root2 = 0x10008, root3 = 0x10008, root4 = 0x10008,
       root5 = 0x10008, root6 = 0x10008, root7 = 0x10008, root8 = 0x10008,
       root9 = 0x10088, root10 = 0x10008\<rparr>"

definition ff2 :: heap where
  "ff2 =
     \<lparr>mem = words
         [(0x10000, 0), (0x10004, 11), (0x10008, 11), (0x1000C, 19),
          (0x10010, 0), (0x10014, 0), (0x1001C, 19), (0x10020, 0),
          (0x10024, 0), (0x1002C, 4066), (0x10030, 0), (0x10034, 0),
          (0x11008, 4064), (0x1100C, 1)]
         (\<lambda>_. 0),
       mem_brk = 0x11010, mem_max_addr = 0x100000, heap_listp = 0x10008, root = 0x10030,
       root1 = 0x10008, root2 = 0x10008, root3 = 0x10008, root4 = 0x10008,
       root5 = 0x10008, root6 = 0x10008, root7 = 0x10008, root8 = 0x10008,
       root9 = 0x10030, root10 = 0x10008\<rparr>"

definition ff3 :: heap where
  "ff3 =
     \<lparr>mem = words
         [(0x10000, 0), (0x10004, 11), (0x10008, 11), (0x1000C, 18),
          (0x10010, 0), (0x10014, 0), (0x10018, 16), (0x1001C, 17),
          (0x10020, 0), (0x10024, 0), (0x1002C, 4066), (0x10030, 0),
          (0x10034, 0), (0x11008, 4064), (0x1100C, 1)]
         (\<lambda>_. 0),
       mem_brk = 0x11010, mem_max_addr = 0x100000, heap_listp = 0x10008, root = 0x10010,
       root1 = 0x10010, root2 = 0x10008, root3 = 0x10008, root4 = 0x10008,
       root5 = 0x10008, root6 = 0x10008, root7 = 0x10008, root8 = 0x10008,
       root9 = 0x10030, root10 = 0x10008\<rparr>"

text \<open>An uninitialised allocator whose arena can grow by eight bytes only.\<close>

definition heap_tiny :: heap where
  "heap_tiny = boot (\<lambda>_. 0) 0x10000 0x10008"

section \<open>Offsets, headers and buckets\<close>

definition adr :: "heap \<Rightarrow> nat \<Rightarrow> ptr" where
  "adr s k = heap_listp s + of_nat k"

definition off :: "heap \<Rightarrow> ptr \<Rightarrow> nat" where
  "off s p = unat (p - heap_listp s)"

definition wd :: "heap \<Rightarrow> nat \<Rightarrow> uint" where
  "wd s k = GET s (adr s k)"

definition hdr :: "nat \<Rightarrow> bool \<Rightarrow> bool \<Rightarrow> uint" where
  "hdr sz al pa = of_nat sz OR (if al then 1 else 0) OR (if pa then 2 else 0)"

definition roots :: "heap \<Rightarrow> ptr list" where
  "roots s = [root1 s, root2 s, root3 s, root4 s, root5 s, root6 s, root7 s, root8 s,
     root9 s, root10 s]"

definition class_of :: "nat \<Rightarrow> nat" where
  "class_of sz =
     (if sz \<le> 16 then 0 else if sz \<le> 32 then 1 else if sz \<le> 64 then 2
      else if sz \<le> 128 then 3 else if sz \<le> 256 then 4 else if sz \<le> 512 then 5
      else if sz \<le> 1024 then 6 else if sz \<le> 2048 then 7 else if sz \<le> 4096 then 8
      else 9)"

definition wal :: "nat \<Rightarrow> bool" where
  "wal j \<longleftrightarrow> 4 dvd j \<and> j < 2 ^ 32"


text \<open>
  A bucket as the code walks it: \<open>plist s p xs\<close> says that following the \<open>next\<close>
  links from \<open>p\<close> visits the blocks \<open>xs\<close> in this order and then reaches the
  sentinel \<open>heap_listp\<close>.
\<close>

fun plist :: "heap \<Rightarrow> ptr \<Rightarrow> ptr list \<Rightarrow> bool" where
  "plist s p [] = (p = heap_listp s)"
| "plist s p (x # xs) = (p = x \<and> x \<noteq> heap_listp s \<and> plist s (GET_NEXT s x) xs)"

definition fits :: "heap \<Rightarrow> size_t \<Rightarrow> ptr \<Rightarrow> bool" where
  "fits s asize bp \<longleftrightarrow> asize \<le> ucast (GET_SIZE s (HDRP bp))"

definition first_fit :: "heap \<Rightarrow> size_t \<Rightarrow> ptr list \<Rightarrow> ptr" where
  "first_fit s asize bs = (case List.find (fits s asize) bs of None \<Rightarrow> NULL | Some b \<Rightarrow> b)"

fun scan_roots :: "heap \<Rightarrow> size_t \<Rightarrow> ptr list \<Rightarrow> ptr option" where
  "scan_roots s asize [] = Some NULL"
| "scan_roots s asize (r # rs) =
     do {
       x \<leftarrow> scan_list s asize r;
       case x of Fit b \<Rightarrow> Some b | Exhausted \<Rightarrow> scan_roots s asize rs
     }"

text \<open>
  The search as the spec words it: the classes are scanned in ascending order starting
  from the class that contains the requested size, each list in list order, and the
  first block whose size is at least the requested size is returned.
\<close>

definition find_fit_spec :: "heap \<Rightarrow> size_t \<Rightarrow> ptr list list \<Rightarrow> ptr" where
  "find_fit_spec s asize L = first_fit s asize (concat (drop (class_of (unat asize)) L))"

text \<open>
  The blocks whose header \<open>find_fit\<close> reads, in the order in which it reads them: the
  same two loops as \<open>scan_list\<close> and \<open>find_fit_loop\<close>, collecting the loop variable
  \<open>bp\<close> at every evaluation of \<open>GET_SIZE(HDRP(bp))\<close>.
\<close>

partial_function (option) scan_list_reads :: "heap \<Rightarrow> size_t \<Rightarrow> ptr \<Rightarrow> ptr list option" where
  "scan_list_reads s asize bp =
     (if bp \<noteq> heap_listp s then
        if asize \<le> ucast (GET_SIZE s (HDRP bp)) then Some [bp]
        else do { rs \<leftarrow> scan_list_reads s asize (GET_NEXT s bp); Some (bp # rs) }
      else Some [])"

partial_function (option) find_fit_reads ::
    "heap \<Rightarrow> size_t \<Rightarrow> size_t \<Rightarrow> ptr \<Rightarrow> ptr list option" where
  "find_fit_reads s asize sz bp =
     (if sz \<le> 8192 then
        do {
          r \<leftarrow> scan_list s asize bp;
          rs \<leftarrow> scan_list_reads s asize bp;
          case r of
            Fit b \<Rightarrow> Some rs
          | Exhausted \<Rightarrow>
              do {
                rs' \<leftarrow> find_fit_reads s asize (push_bit 1 sz) (size2ptr s (push_bit 1 sz));
                Some (rs @ rs')
              }
        }
      else Some [])"

definition find_fit_trace :: "heap \<Rightarrow> size_t \<Rightarrow> ptr list option" where
  "find_fit_trace s asize = find_fit_reads s asize 0x10 (size2ptr s 0x10)"

text \<open>The buckets of the arena \<open>ff3\<close>, class by class.\<close>

definition ff3_lists :: "ptr list list" where
  "ff3_lists = [[0x10010], [], [], [], [], [], [], [], [0x10030], []]"

definition at :: "ptr \<Rightarrow> nat \<Rightarrow> ptr" where
  "at b k = b + of_nat k"

text \<open>
  The arena right after initialisation at base \<open>b\<close>: alignment padding, prologue header
  and footer, one free chunk of 4096 bytes that is the only node of its bucket, the
  epilogue header, and the ten list heads.
\<close>

definition arena_initial :: "heap \<Rightarrow> ptr \<Rightarrow> bool" where
  "arena_initial s b \<longleftrightarrow>
     heap_listp s = b + 8 \<and> mem_brk s = b + 4112
     \<and> GET s (b + 4) = 11 \<and> GET s (b + 8) = 11
     \<and> GET s (b + 12) = 4098 \<and> GET s (b + 4104) = 4096
     \<and> GET_PREV s (b + 16) = heap_listp s \<and> GET_NEXT s (b + 16) = heap_listp s
     \<and> GET s (b + 4108) = 1
     \<and> roots s = [b + 8, b + 8, b + 8, b + 8, b + 8, b + 8, b + 8, b + 8, b + 16, b + 8]"

text \<open>The buckets of the arena \<open>ovf_s3\<close>, class by class.\<close>

definition ovf3_lists :: "ptr list list" where
  "ovf3_lists = [[0x10010], [], [], [], [], [], [], [], [0x10028], []]"

section \<open>The block chain and the buckets as abstract data\<close>

text \<open>
  A block is described by its size, its allocation bit and the \<open>prev_alloc\<close> bit of its
  header.  \<open>seg s k bs\<close> says that the blocks \<open>bs\<close> are laid out one after the other,
  the first with its payload at offset \<open>k\<close> from \<open>heap_listp\<close>: every header holds the
  three fields and every free block carries its size in its footer.
\<close>

type_synonym blk = "nat \<times> bool \<times> bool"

definition total :: "blk list \<Rightarrow> nat" where
  "total bs = sum_list (map fst bs)"

fun seg :: "heap \<Rightarrow> nat \<Rightarrow> blk list \<Rightarrow> bool" where
  "seg s k [] = True"
| "seg s k ((sz, al, pa) # bs) =
     (wd s (k - 4) = hdr sz al pa \<and> (\<not> al \<longrightarrow> wd s (k + sz - 8) = of_nat sz)
      \<and> seg s (k + sz) bs)"

text \<open>The offsets of the headers and footers that \<open>seg\<close> reads.\<close>

fun hf :: "nat \<Rightarrow> blk list \<Rightarrow> nat set" where
  "hf k [] = {}"
| "hf k ((sz, al, pa) # bs) = {k - 4} \<union> (if al then {} else {k + sz - 8}) \<union> hf (k + sz) bs"

fun starts :: "nat \<Rightarrow> blk list \<Rightarrow> nat list" where
  "starts k [] = []"
| "starts k ((sz, al, pa) # bs) = k # starts (k + sz) bs"

text \<open>
  The free blocks (payload offset and size) and the allocated ones; the epilogue, of
  size 0, is not counted among the allocated blocks.
\<close>

fun free_at :: "nat \<Rightarrow> blk list \<Rightarrow> (nat \<times> nat) list" where
  "free_at k [] = []"
| "free_at k ((sz, al, pa) # bs) = (if al then [] else [(k, sz)]) @ free_at (k + sz) bs"

fun live_at :: "nat \<Rightarrow> blk list \<Rightarrow> (nat \<times> nat) list" where
  "live_at k [] = []"
| "live_at k ((sz, al, pa) # bs) = (if al \<and> 0 < sz then [(k, sz)] else []) @ live_at (k + sz) bs"

fun pa_ok :: "bool \<Rightarrow> blk list \<Rightarrow> bool" where
  "pa_ok p [] = True"
| "pa_ok p ((sz, al, pa) # bs) = (pa = p \<and> pa_ok al bs)"

fun set_pa :: "bool \<Rightarrow> blk list \<Rightarrow> blk list" where
  "set_pa p [] = []"
| "set_pa p ((sz, al, pa) # bs) = (sz, al, p) # bs"

definition sizes_ok :: "blk list \<Rightarrow> bool" where
  "sizes_ok bs \<longleftrightarrow> (\<forall>b \<in> set bs. 16 \<le> fst b \<and> 8 dvd fst b)"

definition nadj :: "blk list \<Rightarrow> bool" where
  "nadj bs \<longleftrightarrow> (\<forall>b \<in> set bs. fst (snd b) \<or> snd (snd b))"

text \<open>
  The chain of the whole arena ends with the epilogue, a header of size 0 with the
  allocation bit set; every other block has at least 16 bytes, a multiple of 8.
\<close>

fun chain_ok :: "blk list \<Rightarrow> bool" where
  "chain_ok [] = False"
| "chain_ok [(sz, al, pa)] = (sz = 0 \<and> al)"
| "chain_ok ((sz, al, pa) # b # bs) = (16 \<le> sz \<and> 8 dvd sz \<and> chain_ok (b # bs))"

definition szs :: "blk list \<Rightarrow> bool" where
  "szs bs \<longleftrightarrow> (\<forall>b \<in> set bs. 8 dvd fst b \<and> (16 \<le> fst b \<or> fst b = 0 \<and> fst (snd b)))"

text \<open>
  A bucket is a doubly linked list of payload offsets: \<open>dlseg s pv xs nx\<close> says that
  the nodes \<open>xs\<close> are linked in this order, the first one having \<open>pv\<close> as its
  predecessor and the last one \<open>nx\<close> as its successor.
\<close>

fun hd1 :: "nat list \<Rightarrow> nat \<Rightarrow> nat" where
  "hd1 [] n = n"
| "hd1 (x # xs) n = x"

fun last1 :: "nat \<Rightarrow> nat list \<Rightarrow> nat" where
  "last1 p [] = p"
| "last1 p (x # xs) = last1 x xs"

fun dlseg :: "heap \<Rightarrow> nat \<Rightarrow> nat list \<Rightarrow> nat \<Rightarrow> bool" where
  "dlseg s pv [] nx = True"
| "dlseg s pv (x # xs) nx =
     (wd s x = of_nat pv \<and> wd s (x + 4) = of_nat (hd1 xs nx) \<and> dlseg s x xs nx)"

definition links :: "nat list \<Rightarrow> nat set" where
  "links xs = (\<Union>x \<in> set xs. {x, x + 4})"

definition nodes_ok :: "nat list \<Rightarrow> bool" where
  "nodes_ok xs \<longleftrightarrow> (\<forall>x \<in> set xs. 8 dvd x \<and> 0 < x \<and> x + 4 < 2 ^ 32)"

definition lists_ok :: "heap \<Rightarrow> nat list list \<Rightarrow> bool" where
  "lists_ok s L \<longleftrightarrow>
     length L = 10
     \<and> (\<forall>c < 10. distinct (L ! c) \<and> nodes_ok (L ! c)
           \<and> roots s ! c = adr s (hd1 (L ! c) 0) \<and> dlseg s 0 (L ! c) 0)
     \<and> (\<forall>c < 10. \<forall>c' < 10. c \<noteq> c' \<longrightarrow> set (L ! c) \<inter> set (L ! c') = {})"

definition nodes :: "nat list list \<Rightarrow> nat set" where
  "nodes L = {x. \<exists>c < 10. x \<in> set (L ! c)}"

definition nlinks :: "nat list list \<Rightarrow> nat set" where
  "nlinks L = (\<Union>x \<in> nodes L. {x, x + 4})"

text \<open>
  \<open>listed F L\<close>: the nodes of bucket \<open>c\<close> are the blocks of \<open>F\<close> (payload offset and
  size) whose size is of class \<open>c\<close>.  In \<open>heap_ok s B L X\<close> the arena is the chain \<open>B\<close>,
  the buckets are \<open>L\<close>, and every free block of the chain except those of \<open>X\<close> is in
  the bucket of its size.
\<close>

definition listed :: "(nat \<times> nat) set \<Rightarrow> nat list list \<Rightarrow> bool" where
  "listed F L \<longleftrightarrow> (\<forall>c < 10. set (L ! c) = {x. \<exists>sz. (x, sz) \<in> F \<and> class_of sz = c})"

definition heap_ok :: "heap \<Rightarrow> blk list \<Rightarrow> nat list list \<Rightarrow> (nat \<times> nat) set \<Rightarrow> bool" where
  "heap_ok s B L X \<longleftrightarrow>
     chain_ok B \<and> seg s 8 B \<and> mem_brk s = adr s (8 + total B) \<and> 8 + total B < 2 ^ 32
     \<and> lists_ok s L \<and> listed (set (free_at 8 B) - X) L"

text \<open>
  \<open>upd S s s'\<close>: the state \<open>s'\<close> differs from \<open>s\<close> at most in the list heads and in the
  bytes of the words at the offsets \<open>S\<close>.
\<close>

definition bytes_of :: "heap \<Rightarrow> nat set \<Rightarrow> ptr set" where
  "bytes_of s S = {adr s (j + i) | j i. j \<in> S \<and> i < 4}"

definition upd :: "nat set \<Rightarrow> heap \<Rightarrow> heap \<Rightarrow> bool" where
  "upd S s s' \<longleftrightarrow>
     heap_listp s' = heap_listp s \<and> mem_brk s' = mem_brk s \<and> mem_max_addr s' = mem_max_addr s
     \<and> (\<forall>a. a \<notin> bytes_of s S \<longrightarrow> mem s' a = mem s a)"

text \<open>
  \<open>pw k sz\<close> are the offsets of the payload words of an allocated block of \<open>sz\<close> bytes with
  payload offset \<open>k\<close>: the block has a header and no footer, so its payload has
  \<open>sz - 4\<close> bytes.
\<close>

definition pw :: "nat \<Rightarrow> nat \<Rightarrow> nat set" where
  "pw k sz = {j. 4 dvd j \<and> k \<le> j \<and> j + 8 \<le> k + sz}"

text \<open>
  A well-formed arena: the chain and the buckets agree, every \<open>prev_alloc\<close> bit is
  accurate, the allocator is initialised, and the arena lies within 32-bit offsets of
  \<open>heap_listp\<close>, as the links of the buckets require.
\<close>

definition arena_ok :: "heap \<Rightarrow> blk list \<Rightarrow> nat list list \<Rightarrow> bool" where
  "arena_ok s B L \<longleftrightarrow>
     heap_ok s B L {} \<and> pa_ok True B \<and> heap_listp s \<noteq> NULL
     \<and> unat (mem_brk s) = unat (heap_listp s) + 8 + total B
     \<and> unat (mem_max_addr s) < unat (heap_listp s) + 2 ^ 32"

section \<open>Word accesses to the byte memory\<close>

lemma load32_store32_same: "load32 (store32 m p v) p = v"
  unfolding load32_def store32_def
  apply simp
  apply (rule bit_word_eqI)
  apply (auto simp add: bit_simps)
  subgoal for n by (cases "n < 24") simp_all
  done

lemma word_sep_neq:
  fixes p q :: ptr
  assumes "4 \<le> q - p" "4 \<le> p - q" "unat i < 4" "unat j < 4"
  shows "q + i \<noteq> p + j"
proof
  assume e: "q + i = p + j"
  have "q - p = j - i" using e by (simp add: algebra_simps)
  moreover have "p - q = i - j" using e
    by (metis add_diff_cancel_left' diff_diff_eq2)
  ultimately have a: "4 \<le> j - i" "4 \<le> i - j" using assms by simp_all
  have b: "unat (j - i) = (if unat i \<le> unat j then unat j - unat i else unat j + 2^64 - unat i)"
    by (simp add: unat_sub_if')
  have c: "unat (i - j) = (if unat j \<le> unat i then unat i - unat j else unat i + 2^64 - unat j)"
    by (simp add: unat_sub_if')
  from a have "4 \<le> unat (j - i)" "4 \<le> unat (i - j)"
    by (simp_all add: word_le_nat_alt)
  with b c assms(3,4) show False
    by (auto split: if_splits)
qed

lemma sep_bytes:
  fixes p q :: ptr
  assumes "4 \<le> q - p" "4 \<le> p - q"
  shows "q \<noteq> p" "q \<noteq> p + 1" "q \<noteq> p + 2" "q \<noteq> p + 3"
    "q + 1 \<noteq> p" "q + 1 \<noteq> p + 1" "q + 1 \<noteq> p + 2" "q + 1 \<noteq> p + 3"
    "q + 2 \<noteq> p" "q + 2 \<noteq> p + 1" "q + 2 \<noteq> p + 2" "q + 2 \<noteq> p + 3"
    "q + 3 \<noteq> p" "q + 3 \<noteq> p + 1" "q + 3 \<noteq> p + 2" "q + 3 \<noteq> p + 3"
  using word_sep_neq[OF assms, of 0 0] word_sep_neq[OF assms, of 0 1]
    word_sep_neq[OF assms, of 0 2] word_sep_neq[OF assms, of 0 3]
    word_sep_neq[OF assms, of 1 0] word_sep_neq[OF assms, of 1 1]
    word_sep_neq[OF assms, of 1 2] word_sep_neq[OF assms, of 1 3]
    word_sep_neq[OF assms, of 2 0] word_sep_neq[OF assms, of 2 1]
    word_sep_neq[OF assms, of 2 2] word_sep_neq[OF assms, of 2 3]
    word_sep_neq[OF assms, of 3 0] word_sep_neq[OF assms, of 3 1]
    word_sep_neq[OF assms, of 3 2] word_sep_neq[OF assms, of 3 3]
  by simp_all

lemma load32_store32_other:
  "4 \<le> q - p \<Longrightarrow> 4 \<le> p - q \<Longrightarrow> load32 (store32 m p v) q = load32 m q"
  using sep_bytes[of p q]
  unfolding load32_def store32_def
  by simp

lemma store32_idem: "store32 (store32 m p v) p w = store32 m p w"
  unfolding store32_def by simp

lemma store32_swap:
  assumes "4 \<le> q - p" "4 \<le> p - q"
  shows "store32 (store32 m p v) q w = store32 (store32 m q w) p v"
  using sep_bytes[OF assms] sep_bytes[OF assms(2,1)]
  unfolding store32_def
  by (auto simp: fun_eq_iff)

lemma store32_words: "sepk p al \<Longrightarrow> store32 (words al m) p v = words (ins p v al) m"
proof (induction al)
  case Nil
  then show ?case by simp
next
  case (Cons a al)
  obtain k w where a: "a = (k, w)" by (cases a)
  show ?case
  proof (cases "p = k")
    case True
    then show ?thesis by (simp add: a store32_idem)
  next
    case False
    with Cons.prems a have sep: "4 \<le> k - p" "4 \<le> p - k" by simp_all
    from Cons have IH: "store32 (words al m) p v = words (ins p v al) m" by (simp add: a)
    show ?thesis
    proof (cases "p < k")
      case True
      with False show ?thesis by (simp add: a)
    next
      case nlt: False
      have "store32 (words (a # al) m) p v = store32 (store32 (words al m) k w) p v"
        by (simp add: a)
      also have "\<dots> = store32 (store32 (words al m) p v) k w"
        by (rule store32_swap [OF sep(2) sep(1)])
      also have "\<dots> = words (ins p v (a # al)) m"
        using False nlt by (simp add: a IH)
      finally show ?thesis .
    qed
  qed
qed

lemma load32_words:
  "sepk q al \<Longrightarrow>
   load32 (words al m) q = (case map_of al q of Some v \<Rightarrow> v | None \<Rightarrow> load32 m q)"
proof (induction al)
  case Nil
  then show ?case by simp
next
  case (Cons a al)
  obtain k w where a: "a = (k, w)" by (cases a)
  show ?case
  proof (cases "q = k")
    case True
    then show ?thesis by (simp add: a load32_store32_same)
  next
    case False
    with Cons.prems a have sep: "4 \<le> k - q" "4 \<le> q - k" by simp_all
    have "load32 (words (a # al) m) q = load32 (words al m) q"
      by (simp add: a load32_store32_other [OF sep(2) sep(1)])
    with Cons False show ?thesis by (simp add: a)
  qed
qed

declare words.simps [simp del]

lemma load32_const: "load32 (\<lambda>_. 0) p = 0" "load32 (\<lambda>_. 1) p = 0x01010101"
  by (simp_all add: load32_def)

lemma bind_weak_cong: "a = b \<Longrightarrow> Option.bind a f = Option.bind b f"
  by simp

lemmas eval_defs = mm_init_def extend_heap_def coalesce_def insert_list_def remove_list_def
  place_def malloc_def free_def find_fit_def size2ptr_def update_root_def mem_sbrk_def
  SET_PREV_def SET_NEXT_def GET_PREV_def GET_NEXT_def OF2ADDR_def HDRP_def FTRP_def
  NEXT_BLKP_def PREV_BLKP_def GET_SIZE_def GET_ALLOC_def GET_PREV_ALLOC_def PACK_def MAX_sz_def
  GET_def PUT_def store32_words load32_words load32_const
  find_fit_loop.simps scan_list.simps Let_def

lemmas eval_cong = let_weak_cong prod.case_cong_weak option.case_cong_weak bind_weak_cong
  scan.case_cong_weak

section \<open>Concrete runs\<close>

lemma run_init: "mm_init heap_fresh = (0, heap_init)"
  by (simp add: eval_defs heap_fresh_def boot_def heap_init_def cong: eval_cong)

lemma run_ovf1: "malloc heap_init 0xFFFFFFFFFFFFFFFF = Some (0x10010, ovf_s1)"
  by (simp add: eval_defs heap_init_def ovf_s1_def cong: eval_cong)

lemma run_ovf2: "malloc ovf_s1 1 = Some (0x10018, ovf_s2)"
  by (simp add: eval_defs ovf_s1_def ovf_s2_def cong: eval_cong)

lemma run_ovf3: "free ovf_s2 0x10010 = ovf_s3"
  by (simp add: eval_defs ovf_s2_def ovf_s3_def cong: eval_cong)

lemma run_full_init: "mm_init (boot (\<lambda>_. 1) 0x10000 0x11010) = (0, heap_full)"
  by (simp add: eval_defs boot_def heap_full_def cong: eval_cong)

lemma run_full_malloc: "malloc heap_full 5000 = Some (NULL, heap_full)"
  by (simp add: eval_defs heap_full_def cong: eval_cong)

lemma run_rs1: "malloc heap_init 1 = Some (0x10010, rs1)"
  by (simp add: eval_defs heap_init_def rs1_def cong: eval_cong)

lemma run_rs2: "malloc rs1 100 = Some (0x10020, rs2)"
  by (simp add: eval_defs rs1_def rs2_def cong: eval_cong)

lemma run_ff2: "malloc rs1 1 = Some (0x10020, ff2)"
  by (simp add: eval_defs rs1_def ff2_def cong: eval_cong)

lemma run_ff3: "free ff2 0x10010 = ff3"
  by (simp add: eval_defs ff2_def ff3_def cong: eval_cong)

lemma mem_words_byte:
  "words ((p, v) # al) m a =
     (if a = p + 3 then ucast (drop_bit 24 v)
      else if a = p + 2 then ucast (drop_bit 16 v)
      else if a = p + 1 then ucast (drop_bit 8 v)
      else if a = p then ucast v
      else words al m a)"
  "words [] m a = m a"
  by (simp_all add: words.simps store32_def)

section \<open>Claims settled on the public functions\<close>

text \<open>
  Claim C5, as amended: \<open>allocate(0)\<close> returns null; on an initialised allocator
  (heap base set) it leaves the whole allocator state unchanged, and on an allocator
  that was never initialised the only change is that of \<open>mm_init\<close>, which runs before
  the size is looked at.
\<close>

theorem C5_malloc_zero:
  "malloc s 0 = Some (NULL, if heap_listp s = NULL then snd (mm_init s) else s)"
  by (simp add: malloc_def)

text \<open>
  The theorem of C5 at the initialised arena \<open>heap_init\<close> and at the uninitialised
  \<open>heap_fresh\<close>.
\<close>

theorem C5_malloc_zero_witness:
  "malloc heap_init 0 = Some (NULL, heap_init) \<and> malloc heap_fresh 0 = Some (NULL, heap_init)"
  using C5_malloc_zero [of heap_init] C5_malloc_zero [of heap_fresh]
  by (simp add: run_init) (simp add: heap_init_def heap_fresh_def boot_def)

text \<open>
  C5 as stated fails on the allocator that was never initialised: \<open>allocate(0)\<close>
  grows the arena and sets the heap base and the list heads.
\<close>

theorem C5_uninitialised_counterexample:
  "malloc heap_fresh 0 = Some (NULL, heap_init) \<and> heap_listp heap_init \<noteq> heap_listp heap_fresh
     \<and> mem_brk heap_init \<noteq> mem_brk heap_fresh \<and> root9 heap_init \<noteq> root9 heap_fresh"
  by (simp add: malloc_def run_init) (simp add: heap_init_def heap_fresh_def boot_def)

text \<open>
  Claim C10: \<open>zero_allocate\<close> multiplies in \<open>size_t\<close> without an overflow check.  When
  the mathematical product \<open>count * size\<close> exceeds the word range, the byte count
  passed to \<open>malloc\<close> and to \<open>memset\<close> is the product modulo \<open>2 ^ 64\<close>, which is smaller
  than the product.
\<close>

theorem C10_calloc_wraps:
  assumes "2 ^ 64 \<le> unat nmemb * unat sz"
  shows "\<exists>bytes. unat bytes = (unat nmemb * unat sz) mod 2 ^ 64
           \<and> unat bytes < unat nmemb * unat sz
           \<and> calloc s nmemb sz =
               do { (newptr, s') \<leftarrow> malloc s bytes;
                    Some (newptr, s'\<lparr>mem := memset (mem s') newptr 0 bytes\<rparr>) }"
proof (intro exI conjI)
  show "unat (nmemb * sz) = (unat nmemb * unat sz) mod 2 ^ 64"
    by (simp add: unat_word_ariths)
  have "unat (nmemb * sz) < 2 ^ 64"
    using unsigned_less [of "nmemb * sz"] by simp
  with assms show "unat (nmemb * sz) < unat nmemb * unat sz"
    by linarith
  show "calloc s nmemb sz =
          do { (newptr, s') \<leftarrow> malloc s (nmemb * sz);
               Some (newptr, s'\<lparr>mem := memset (mem s') newptr 0 (nmemb * sz)\<rparr>) }"
    by (simp add: calloc_def Let_def)
qed

text \<open>The theorem of C10 at \<open>count = 2 ^ 63 + 1\<close>, \<open>size = 3\<close>.\<close>

theorem C10_calloc_wraps_witness:
  "(2 :: nat) ^ 64 \<le> unat (0x8000000000000001 :: size_t) * unat (3 :: size_t)
   \<and> (\<exists>bytes. unat bytes = (unat (0x8000000000000001 :: size_t) * unat (3 :: size_t)) mod 2 ^ 64
           \<and> unat bytes < unat (0x8000000000000001 :: size_t) * unat (3 :: size_t)
           \<and> calloc heap_init 0x8000000000000001 3 =
               do { (newptr, s') \<leftarrow> malloc heap_init bytes;
                    Some (newptr, s'\<lparr>mem := memset (mem s') newptr 0 bytes\<rparr>) })"
proof -
  have h: "(2 :: nat) ^ 64 \<le> unat (0x8000000000000001 :: size_t) * unat (3 :: size_t)"
    by simp
  show ?thesis
    using h C10_calloc_wraps [OF h, of heap_init] by blast
qed

text \<open>
  Claim C4 at an arena that cannot grow: \<open>malloc\<close> fails and returns null, and
  \<open>zero_allocate(1, 5000)\<close> then runs \<open>memset\<close> on the null pointer, which writes
  the byte at address 0 (1 before the call, 0 after it) before null is returned.
\<close>

theorem C4_calloc_writes_through_null:
  "malloc heap_full 5000 = Some (NULL, heap_full)
   \<and> calloc heap_full 1 5000 = Some (NULL, heap_full\<lparr>mem := memset (mem heap_full) NULL 0 5000\<rparr>)
   \<and> mem heap_full NULL = 1
   \<and> memset (mem heap_full) NULL 0 5000 NULL = 0"
proof (intro conjI)
  show "malloc heap_full 5000 = Some (NULL, heap_full)"
    by (rule run_full_malloc)
  show "calloc heap_full 1 5000 = Some (NULL, heap_full\<lparr>mem := memset (mem heap_full) NULL 0 5000\<rparr>)"
    by (simp add: calloc_def run_full_malloc)
  show "mem heap_full NULL = 1"
    by (simp add: heap_full_def mem_words_byte)
  show "memset (mem heap_full) NULL 0 5000 NULL = 0"
    by (simp add: memset_def)
qed

text \<open>
  Claim C1 on a request whose adjusted size wraps around: \<open>allocate(2 ^ 64 - 1)\<close>
  is served with a block of 8 bytes at \<open>0x10010\<close>, \<open>allocate(1)\<close> with the
  next block at \<open>0x10018\<close>, and releasing the first block writes its \<open>next\<close> link over
  the header of the second.  After the release both the released block and the block
  that physically follows it carry a clear allocation bit.
\<close>

theorem C1_overflow_adjacent_free:
  "malloc heap_init 0xFFFFFFFFFFFFFFFF = Some (0x10010, ovf_s1)
   \<and> malloc ovf_s1 1 = Some (0x10018, ovf_s2)
   \<and> free ovf_s2 0x10010 = ovf_s3
   \<and> GET_ALLOC ovf_s2 (HDRP 0x10018) = 1
   \<and> GET_ALLOC ovf_s3 (HDRP 0x10010) = 0
   \<and> NEXT_BLKP ovf_s3 0x10010 = 0x10018
   \<and> GET_ALLOC ovf_s3 (HDRP 0x10018) = 0"
proof (intro conjI)
  show "GET_ALLOC ovf_s2 (HDRP 0x10018) = 1"
    by (simp add: GET_ALLOC_def GET_def HDRP_def ovf_s2_def load32_words)
  show "GET_ALLOC ovf_s3 (HDRP 0x10010) = 0"
    by (simp add: GET_ALLOC_def GET_def HDRP_def ovf_s3_def load32_words)
  show "NEXT_BLKP ovf_s3 0x10010 = 0x10018"
    by (simp add: NEXT_BLKP_def GET_SIZE_def GET_def ovf_s3_def load32_words)
  show "GET_ALLOC ovf_s3 (HDRP 0x10018) = 0"
    by (simp add: GET_ALLOC_def GET_def HDRP_def ovf_s3_def load32_words)
qed (rule run_ovf1 run_ovf2 run_ovf3)+

text \<open>
  Claim C8 on the request whose adjusted size wraps around (the run of claim C1).  After
  \<open>release(p)\<close> the header of the block \<open>q = 0x10018\<close>, which \<open>allocate(1)\<close> handed out
  and which was never released, has a clear allocation bit and the size 0, and \<open>q\<close> is
  in none of the ten buckets: the buckets hold the released block of 8 bytes and the
  rest of the initial chunk only.
\<close>

theorem C8_overflow_unlisted_block:
  "malloc heap_init 0xFFFFFFFFFFFFFFFF = Some (0x10010, ovf_s1)
   \<and> malloc ovf_s1 1 = Some (0x10018, ovf_s2)
   \<and> free ovf_s2 0x10010 = ovf_s3
   \<and> GET_ALLOC ovf_s2 (HDRP 0x10018) = 1
   \<and> GET_SIZE ovf_s2 (HDRP 0x10018) = 16
   \<and> GET_ALLOC ovf_s3 (HDRP 0x10018) = 0
   \<and> GET_SIZE ovf_s3 (HDRP 0x10018) = 0
   \<and> list_all (\<lambda>c. plist ovf_s3 (roots ovf_s3 ! c) (ovf3_lists ! c)) [0..<10]
   \<and> 0x10018 \<notin> set (concat ovf3_lists)"
proof (intro conjI)
  show "GET_ALLOC ovf_s2 (HDRP 0x10018) = 1"
    by (simp add: GET_ALLOC_def GET_def HDRP_def ovf_s2_def load32_words)
  show "GET_SIZE ovf_s2 (HDRP 0x10018) = 16"
    by (simp add: GET_SIZE_def GET_def HDRP_def ovf_s2_def load32_words)
  show "GET_ALLOC ovf_s3 (HDRP 0x10018) = 0"
    by (simp add: GET_ALLOC_def GET_def HDRP_def ovf_s3_def load32_words)
  show "GET_SIZE ovf_s3 (HDRP 0x10018) = 0"
    by (simp add: GET_SIZE_def GET_def HDRP_def ovf_s3_def load32_words)
  show "list_all (\<lambda>c. plist ovf_s3 (roots ovf_s3 ! c) (ovf3_lists ! c)) [0..<10]"
    by (simp add: upt_rec ovf3_lists_def roots_def ovf_s3_def GET_NEXT_def OF2ADDR_def GET_def
        load32_words load32_const)
  show "0x10018 \<notin> set (concat ovf3_lists)"
    by (simp add: ovf3_lists_def)
qed (rule run_ovf1 run_ovf2 run_ovf3)+

section \<open>Addresses as offsets from the heap base\<close>

lemma adr_off: "adr s (off s p) = p"
  by (simp add: adr_def off_def)

lemma off_adr: "k < 2 ^ 64 \<Longrightarrow> off s (adr s k) = k"
  by (simp add: adr_def off_def unat_of_nat)

lemma adr_inj: "j < 2 ^ 64 \<Longrightarrow> k < 2 ^ 64 \<Longrightarrow> adr s j = adr s k \<longleftrightarrow> j = k"
  using off_adr by metis

lemma adr_plus: "adr s k + of_nat j = adr s (k + j)"
  by (simp add: adr_def)

lemma adr_minus: "j \<le> k \<Longrightarrow> adr s k - of_nat j = adr s (k - j)"
  by (simp add: adr_def)

lemma adr_num:
  "adr s k + 4 = adr s (k + 4)" "adr s k + 8 = adr s (k + 8)"
  "4 \<le> k \<Longrightarrow> adr s k - 4 = adr s (k - 4)" "8 \<le> k \<Longrightarrow> adr s k - 8 = adr s (k - 8)"
  using adr_plus [of s k 4] adr_plus [of s k 8] adr_minus [of 4 k s] adr_minus [of 8 k s]
  by simp_all

lemma adr_zero: "adr s 0 = heap_listp s"
  by (simp add: adr_def)

lemma unat_diff_of_nat:
  assumes "j < 2 ^ 64" "k < 2 ^ 64"
  shows "unat (of_nat j - of_nat k :: 64 word) = (if k \<le> j then j - k else j + 2 ^ 64 - k)"
  using assms by (simp add: unat_sub_if' unat_of_nat)

lemma adr_sep:
  assumes "j < 2 ^ 32" "k < 2 ^ 32" "j + 4 \<le> k \<or> k + 4 \<le> j"
  shows "4 \<le> adr s j - adr s k"
proof -
  have jk: "j < 2 ^ 64" "k < 2 ^ 64" using assms(1,2) by simp_all
  have "adr s j - adr s k = of_nat j - of_nat k" by (simp add: adr_def)
  moreover have "4 \<le> unat (of_nat j - of_nat k :: 64 word)"
    using assms unat_diff_of_nat [OF jk] by auto
  ultimately show ?thesis by (simp add: word_le_nat_alt)
qed

lemma adr_PUT [simp]: "adr (PUT s p v) k = adr s k"
  by (simp add: adr_def PUT_def)

lemma wd_PUT:
  assumes "j < 2 ^ 32" "k < 2 ^ 32" "j = k \<or> j + 4 \<le> k \<or> k + 4 \<le> j"
  shows "wd (PUT s (adr s k) v) j = (if j = k then v else wd s j)"
proof (cases "j = k")
  case True
  then show ?thesis by (simp add: wd_def GET_def PUT_def load32_store32_same adr_def)
next
  case False
  with assms have d: "j + 4 \<le> k \<or> k + 4 \<le> j" by simp
  then have d': "k + 4 \<le> j \<or> j + 4 \<le> k" by auto
  have "load32 (store32 (mem s) (adr s k) v) (adr s j) = load32 (mem s) (adr s j)"
    by (rule load32_store32_other [OF adr_sep [OF assms(1,2) d] adr_sep [OF assms(2,1) d']])
  with False show ?thesis
    by (simp add: wd_def GET_def PUT_def adr_def)
qed

lemma adr_plus_ucast: "adr s k + ucast (w :: uint) = adr s (k + unat w)"
  using adr_plus [of s k "unat w"] by simp

lemma adr_minus_ucast: "unat (w :: uint) \<le> k \<Longrightarrow> adr s k - ucast w = adr s (k - unat w)"
  using adr_minus [of "unat w" k s] by simp

lemma ucast_down_of_nat: "(ucast (of_nat n :: size_t) :: uint) = of_nat n"
proof -
  have "(2::nat) ^ 32 dvd 2 ^ 64"
    by (rule le_imp_power_dvd) simp
  then have "n mod 2 ^ 64 mod 2 ^ 32 = n mod 2 ^ 32"
    by (rule mod_mod_cancel)
  then show ?thesis
    by (simp add: unsigned_of_nat word_of_nat_eq_iff take_bit_eq_mod)
qed

lemma word_of_int_mod64: "(word_of_int (k mod 2 ^ 64) :: uint) = word_of_int k"
proof (subst word_of_int_eq_iff)
  have "(2::int) ^ 32 dvd 2 ^ 64"
    by (rule le_imp_power_dvd) simp
  then have "k mod 2 ^ 64 mod 2 ^ 32 = k mod 2 ^ 32"
    by (rule mod_mod_cancel)
  then show "take_bit LENGTH(32) (k mod 2 ^ 64) = take_bit LENGTH(32) k"
    by (simp add: take_bit_eq_mod)
qed

lemma ucast_down_diff: "(ucast (x - y :: size_t) :: uint) = ucast x - ucast y"
proof -
  have "(ucast (x - y) :: uint) = word_of_int (uint (x - y))"
    by (rule ucast_eq)
  also have "\<dots> = word_of_int ((uint x - uint y) mod 2 ^ 64)"
    by (simp add: uint_word_ariths)
  also have "\<dots> = (word_of_int (uint x - uint y) :: uint)"
    by (rule word_of_int_mod64)
  also have "\<dots> = ucast x - ucast y"
    by simp
  finally show ?thesis .
qed

lemma ADDR2OF_trunc:
  "(ucast (ucast (ucast val :: uint) - h :: size_t) :: uint) = ucast (val - h)"
proof -
  have "(ucast (ucast (ucast val :: uint) :: size_t) :: uint) = ucast val"
    by (rule bit_word_eqI) (auto simp add: bit_simps)
  then show ?thesis
    by (simp add: ucast_down_diff)
qed

lemma SET_PREV_adr: "v < 2 ^ 32 \<Longrightarrow> SET_PREV s (adr s k) (adr s v) = PUT s (adr s k) (of_nat v)"
  by (simp add: SET_PREV_def ADDR2OF_trunc adr_def ucast_down_of_nat)

lemma SET_NEXT_adr: "v < 2 ^ 32 \<Longrightarrow> SET_NEXT s (adr s k) (adr s v) = PUT s (adr s (k + 4)) (of_nat v)"
  by (simp add: SET_NEXT_def ADDR2OF_trunc adr_num) (simp add: adr_def ucast_down_of_nat)

lemma GET_PREV_adr: "GET_PREV s (adr s k) = adr s (unat (wd s k))"
  by (simp add: GET_PREV_def OF2ADDR_def wd_def adr_def)

lemma GET_NEXT_adr: "GET_NEXT s (adr s k) = adr s (unat (wd s (k + 4)))"
  by (simp add: GET_NEXT_def OF2ADDR_def wd_def adr_num) (simp add: adr_def)

section \<open>Header words\<close>

lemma num_bits:
  "(7 :: uint) = mask 3" "(2 :: uint) = push_bit 1 1"
  by (simp_all add: mask_eq_exp_minus_1)

lemma of_nat_8: "8 dvd sz \<Longrightarrow> \<exists>m. (of_nat sz :: uint) = push_bit 3 (of_nat m)"
proof -
  assume "8 dvd sz"
  then obtain k where "sz = 8 * k" by (auto simp: dvd_def)
  then have "(of_nat sz :: uint) = push_bit 3 (of_nat k)"
    by (simp add: push_bit_eq_mult)
  then show ?thesis by blast
qed

lemma hdr_size: "8 dvd sz \<Longrightarrow> hdr sz al pa AND NOT 7 = of_nat sz"
proof -
  assume "8 dvd sz"
  then obtain m where m: "(of_nat sz :: uint) = push_bit 3 (of_nat m)"
    using of_nat_8 by blast
  show ?thesis
    unfolding hdr_def m num_bits
    by (rule bit_word_eqI) (auto simp add: bit_simps)
qed

lemma hdr_alloc: "8 dvd sz \<Longrightarrow> hdr sz al pa AND 1 = (if al then 1 else 0)"
proof -
  assume "8 dvd sz"
  then obtain m where m: "(of_nat sz :: uint) = push_bit 3 (of_nat m)"
    using of_nat_8 by blast
  show ?thesis
    unfolding hdr_def m num_bits
    by (rule bit_word_eqI) (auto simp add: bit_simps)
qed

lemma hdr_prev: "8 dvd sz \<Longrightarrow> hdr sz al pa AND 2 = (if pa then 2 else 0)"
proof -
  assume "8 dvd sz"
  then obtain m where m: "(of_nat sz :: uint) = push_bit 3 (of_nat m)"
    using of_nat_8 by blast
  show ?thesis
    unfolding hdr_def m num_bits
    by (rule bit_word_eqI) (auto simp add: bit_simps)
qed

lemma hdr_clear: "8 dvd sz \<Longrightarrow> hdr sz al pa AND NOT 2 = hdr sz al False"
proof -
  assume "8 dvd sz"
  then obtain m where m: "(of_nat sz :: uint) = push_bit 3 (of_nat m)"
    using of_nat_8 by blast
  show ?thesis
    unfolding hdr_def m num_bits
    by (rule bit_word_eqI) (auto simp add: bit_simps)
qed

lemma hdr_set: "hdr sz al pa OR 2 = hdr sz al True"
  unfolding hdr_def
  by (rule bit_word_eqI) (auto simp add: bit_simps)

lemma unat_of_nat32: "sz < 2 ^ 32 \<Longrightarrow> unat (of_nat sz :: uint) = sz"
  by (simp add: unat_of_nat)

lemma hdr_inj: "8 dvd sz \<and> 8 dvd sz' \<and> sz < 2 ^ 32 \<and> sz' < 2 ^ 32 \<Longrightarrow>
   hdr sz al pa = hdr sz' al' pa' \<longleftrightarrow> sz = sz' \<and> al = al' \<and> pa = pa'"
proof -
  assume "8 dvd sz \<and> 8 dvd sz' \<and> sz < 2 ^ 32 \<and> sz' < 2 ^ 32"
  then have a: "8 dvd sz" "8 dvd sz'" "sz < 2 ^ 32" "sz' < 2 ^ 32" by simp_all
  show "hdr sz al pa = hdr sz' al' pa' \<longleftrightarrow> sz = sz' \<and> al = al' \<and> pa = pa'"
  proof
    assume e: "hdr sz al pa = hdr sz' al' pa'"
    have "(of_nat sz :: uint) = of_nat sz'"
      using hdr_size [OF a(1), of al pa] hdr_size [OF a(2), of al' pa'] e by simp
    then have "unat (of_nat sz :: uint) = unat (of_nat sz' :: uint)" by simp
    with a have 1: "sz = sz'" by (simp add: unat_of_nat32)
    have 2: "al = al'"
      using hdr_alloc [OF a(1), of al pa] hdr_alloc [OF a(2), of al' pa'] e
      by (simp split: if_splits)
    have 3: "pa = pa'"
      using hdr_prev [OF a(1), of al pa] hdr_prev [OF a(2), of al' pa'] e
      by (simp split: if_splits)
    from 1 2 3 show "sz = sz' \<and> al = al' \<and> pa = pa'" by simp
  qed simp
qed


text \<open>The macros on a header word.\<close>

lemma GET_SIZE_hdr: "wd s j = hdr sz al pa \<Longrightarrow> 8 dvd sz \<Longrightarrow> GET_SIZE s (adr s j) = of_nat sz"
  unfolding GET_SIZE_def wd_def [symmetric] by (simp only: hdr_size)

lemma GET_ALLOC_hdr:
  "wd s j = hdr sz al pa \<Longrightarrow> 8 dvd sz \<Longrightarrow> GET_ALLOC s (adr s j) = (if al then 1 else 0)"
  unfolding GET_ALLOC_def wd_def [symmetric] by (simp only: hdr_alloc)

lemma GET_PREV_ALLOC_hdr:
  "wd s j = hdr sz al pa \<Longrightarrow> 8 dvd sz \<Longrightarrow> GET_PREV_ALLOC s (adr s j) = (if pa then 2 else 0)"
  unfolding GET_PREV_ALLOC_def wd_def [symmetric] by (simp only: hdr_prev)

lemma HDRP_adr: "4 \<le> k \<Longrightarrow> HDRP (adr s k) = adr s (k - 4)"
  by (simp add: HDRP_def adr_num)

lemma NEXT_BLKP_adr:
  "wd s (k - 4) = hdr sz al pa \<Longrightarrow> 8 dvd sz \<Longrightarrow> sz < 2 ^ 32 \<Longrightarrow> 4 \<le> k \<Longrightarrow>
   NEXT_BLKP s (adr s k) = adr s (k + sz)"
  using GET_SIZE_hdr [of s "k - 4" sz al pa]
  by (simp add: NEXT_BLKP_def adr_num adr_plus_ucast unat_of_nat32)

lemma FTRP_adr:
  "wd s (k - 4) = hdr sz al pa \<Longrightarrow> 8 dvd sz \<Longrightarrow> sz < 2 ^ 32 \<Longrightarrow> 4 \<le> k \<Longrightarrow> 8 \<le> sz \<Longrightarrow>
   FTRP s (adr s k) = adr s (k + sz - 8)"
  using GET_SIZE_hdr [of s "k - 4" sz al pa]
  by (simp add: FTRP_def HDRP_adr adr_plus_ucast unat_of_nat32 adr_num)

lemma PREV_BLKP_adr:
  "wd s (k - 8) = of_nat sz \<Longrightarrow> 8 dvd sz \<Longrightarrow> sz < 2 ^ 32 \<Longrightarrow> 8 \<le> k \<Longrightarrow> sz \<le> k \<Longrightarrow>
   PREV_BLKP s (adr s k) = adr s (k - sz)"
  using GET_SIZE_hdr [of s "k - 8" sz False False]
  by (simp add: PREV_BLKP_def adr_num adr_minus_ucast unat_of_nat32 hdr_def)

lemma hdr_plain: "hdr sz False False = of_nat sz"
  by (simp add: hdr_def)

section \<open>Bucket operations\<close>

lemma class_of_less: "class_of sz < 10"
  by (simp add: class_of_def)

lemma length_roots [simp]: "length (roots s) = 10"
  by (simp add: roots_def)

lemma size2ptr_roots: "size2ptr s sz = roots s ! class_of (unat sz)"
  by (simp add: size2ptr_def roots_def class_of_def word_le_nat_alt)

lemma update_root_frame:
  "mem (update_root s sz) = mem s" "heap_listp (update_root s sz) = heap_listp s"
  "mem_brk (update_root s sz) = mem_brk s" "mem_max_addr (update_root s sz) = mem_max_addr s"
  by (simp_all add: update_root_def)

lemma update_root_roots:
  "roots (update_root s sz) = (roots s)[class_of (unat sz) := root s]"
  by (simp add: update_root_def roots_def class_of_def word_le_nat_alt)

lemma PUT_frame:
  "heap_listp (PUT s p v) = heap_listp s" "mem_brk (PUT s p v) = mem_brk s"
  "mem_max_addr (PUT s p v) = mem_max_addr s" "roots (PUT s p v) = roots s"
  "root (PUT s p v) = root s"
  by (simp_all add: PUT_def roots_def)

lemma root_upd_frame:
  "mem (s\<lparr>root := r\<rparr>) = mem s" "heap_listp (s\<lparr>root := r\<rparr>) = heap_listp s"
  "mem_brk (s\<lparr>root := r\<rparr>) = mem_brk s" "mem_max_addr (s\<lparr>root := r\<rparr>) = mem_max_addr s"
  "roots (s\<lparr>root := r\<rparr>) = roots s"
  by (simp_all add: roots_def)

lemma wd_cong: "mem s' = mem s \<Longrightarrow> heap_listp s' = heap_listp s \<Longrightarrow> wd s' j = wd s j"
  by (simp add: wd_def GET_def adr_def)

lemma adr_cong: "heap_listp s' = heap_listp s \<Longrightarrow> adr s' j = adr s j"
  by (simp add: adr_def)

lemma wd_PUT_al:
  "wal j \<Longrightarrow> wal k \<Longrightarrow> heap_listp s' = heap_listp s \<Longrightarrow>
   wd (PUT s' (adr s k) v) j = (if j = k then v else wd s' j)"
proof -
  assume a: "wal j" "wal k" and h: "heap_listp s' = heap_listp s"
  then have "j = k \<or> j + 4 \<le> k \<or> k + 4 \<le> j"
    by (auto simp: wal_def dvd_def)
  with a have "wd (PUT s' (adr s' k) v) j = (if j = k then v else wd s' j)"
    by (intro wd_PUT) (auto simp: wal_def)
  then show ?thesis by (simp add: adr_cong [OF h])
qed

text \<open>The effect of \<open>insert_list\<close>, with \<open>h\<close> the offset of the old head of the bucket.\<close>

lemma insert_list_frame:
  "heap_listp (insert_list s bp sz) = heap_listp s"
  "mem_brk (insert_list s bp sz) = mem_brk s"
  "mem_max_addr (insert_list s bp sz) = mem_max_addr s"
  by (simp_all add: insert_list_def Let_def update_root_frame SET_PREV_def SET_NEXT_def PUT_frame)

lemma insert_list_roots:
  "roots (insert_list s bp sz) = (roots s)[class_of (unat sz) := bp]"
  by (simp add: insert_list_def Let_def update_root_roots SET_PREV_def SET_NEXT_def PUT_frame
      root_upd_frame)

lemma SET_PREV_gen: "SET_PREV s bp val = PUT s bp (ucast (val - heap_listp s))"
  by (simp add: SET_PREV_def ADDR2OF_trunc)

lemma SET_NEXT_gen: "SET_NEXT s bp val = PUT s (bp + 4) (ucast (val - heap_listp s))"
  by (simp add: SET_NEXT_def ADDR2OF_trunc)

lemma ucast_off: "k < 2 ^ 32 \<Longrightarrow> (ucast (adr s k - heap_listp s) :: uint) = of_nat k"
  by (simp add: adr_def ucast_down_of_nat)

lemma insert_list_mem:
  "mem (insert_list s bp sz) =
     mem (let r = size2ptr s sz;
              s1 = PUT s bp 0;
              s2 = PUT s1 (bp + 4) (ucast (r - heap_listp s))
          in if r \<noteq> heap_listp s then PUT s2 r (ucast (bp - heap_listp s)) else s2)"
  by (simp add: insert_list_def Let_def update_root_frame SET_PREV_gen SET_NEXT_gen PUT_def)

lemma insert_list_wd:
  assumes k: "wal k" "wal (k + 4)" and h: "wal h" "roots s ! class_of (unat sz) = adr s h"
    and j: "wal j"
  shows "wd (insert_list s (adr s k) sz) j =
     (if h \<noteq> 0 \<and> j = h then of_nat k
      else if j = k + 4 then of_nat h
      else if j = k then 0
      else wd s j)"
proof -
  let ?s1 = "PUT s (adr s k) 0"
  let ?s2 = "PUT ?s1 (adr s (k + 4)) (of_nat h)"
  let ?s3 = "if h \<noteq> 0 then PUT ?s2 (adr s h) (of_nat k) else ?s2"
  have hl: "adr s h \<noteq> heap_listp s \<longleftrightarrow> h \<noteq> 0"
    using adr_inj [of h 0 s] h(1) by (simp add: adr_zero wal_def)
  have kb: "k < 2 ^ 32" "h < 2 ^ 32" using k h by (simp_all add: wal_def)
  have "mem (insert_list s (adr s k) sz) = mem ?s3"
    using hl kb by (simp add: insert_list_mem size2ptr_roots h(2) Let_def ucast_off adr_num)
  then have "wd (insert_list s (adr s k) sz) j = wd ?s3 j"
    by (rule wd_cong) (simp add: insert_list_frame PUT_frame)
  also have "\<dots> = (if h \<noteq> 0 \<and> j = h then of_nat k
      else if j = k + 4 then of_nat h else if j = k then 0 else wd s j)"
    using j k h(1) by (auto simp add: wd_PUT_al PUT_frame)
  finally show ?thesis .
qed

text \<open>The effect of \<open>remove_list\<close>, with \<open>pv\<close> and \<open>nx\<close> the links of the removed node.\<close>

lemma remove_list_frame:
  "heap_listp (remove_list s bp sz) = heap_listp s"
  "mem_brk (remove_list s bp sz) = mem_brk s"
  "mem_max_addr (remove_list s bp sz) = mem_max_addr s"
  by (simp_all add: remove_list_def Let_def update_root_frame SET_PREV_gen SET_NEXT_gen PUT_frame)

lemma remove_list_roots:
  "roots (remove_list s bp sz) =
     (roots s)[class_of (unat sz) :=
        (if bp = roots s ! class_of (unat sz) then GET_NEXT s bp else roots s ! class_of (unat sz))]"
  by (simp add: remove_list_def Let_def update_root_roots SET_PREV_gen SET_NEXT_gen PUT_frame
      root_upd_frame size2ptr_roots)

lemma remove_list_mem:
  "mem (remove_list s bp sz) =
     mem (let prev = GET_PREV s bp; next = GET_NEXT s bp;
              s2 = (if prev \<noteq> heap_listp s
                    then PUT s (prev + 4) (ucast (next - heap_listp s)) else s)
          in if next \<noteq> heap_listp s then PUT s2 next (ucast (prev - heap_listp s)) else s2)"
  by (simp add: remove_list_def Let_def update_root_frame SET_PREV_gen SET_NEXT_gen PUT_def)

lemma remove_list_wd:
  assumes k: "wal k" "wal (k + 4)" and pv: "unat (wd s k) = pv" "wal pv" "wal (pv + 4)"
    and nx: "unat (wd s (k + 4)) = nx" "wal nx" and j: "wal j"
  shows "wd (remove_list s (adr s k) sz) j =
     (if nx \<noteq> 0 \<and> j = nx then of_nat pv
      else if pv \<noteq> 0 \<and> j = pv + 4 then of_nat nx
      else wd s j)"
proof -
  let ?s2 = "if pv \<noteq> 0 then PUT s (adr s (pv + 4)) (of_nat nx) else s"
  let ?s3 = "if nx \<noteq> 0 then PUT ?s2 (adr s nx) (of_nat pv) else ?s2"
  have b: "pv < 2 ^ 32" "nx < 2 ^ 32" using pv nx by (simp_all add: wal_def)
  have hl: "adr s pv \<noteq> heap_listp s \<longleftrightarrow> pv \<noteq> 0" "adr s nx \<noteq> heap_listp s \<longleftrightarrow> nx \<noteq> 0"
    using adr_inj [of pv 0 s] adr_inj [of nx 0 s] b by (simp_all add: adr_zero)
  have "mem (remove_list s (adr s k) sz) = mem ?s3"
    using hl b by (simp add: remove_list_mem Let_def GET_PREV_adr GET_NEXT_adr pv nx ucast_off adr_num)
  then have "wd (remove_list s (adr s k) sz) j = wd ?s3 j"
    by (rule wd_cong) (simp add: remove_list_frame PUT_frame)
  also have "\<dots> = (if nx \<noteq> 0 \<and> j = nx then of_nat pv
      else if pv \<noteq> 0 \<and> j = pv + 4 then of_nat nx else wd s j)"
    using j pv(2,3) nx(2) by (auto simp add: wd_PUT_al PUT_frame)
  finally show ?thesis .
qed

section \<open>Fit search\<close>

lemma scan_list_plist:
  "plist s p xs \<Longrightarrow>
   scan_list s asize p =
     Some (case List.find (fits s asize) xs of None \<Rightarrow> Exhausted | Some b \<Rightarrow> Fit b)"
proof (induction xs arbitrary: p)
  case Nil
  then show ?case by (subst scan_list.simps) simp
next
  case (Cons x xs)
  then have p: "p = x" "x \<noteq> heap_listp s" and r: "plist s (GET_NEXT s x) xs"
    by simp_all
  show ?case
    by (subst scan_list.simps) (simp add: p Cons.IH [OF r] flip: fits_def)
qed

lemma find_fit_scan_roots: "find_fit s asize = scan_roots s asize (roots s)"
  by (simp add: find_fit_def find_fit_loop.simps size2ptr_def roots_def)

lemma find_app:
  "List.find P (xs @ ys) = (case List.find P xs of None \<Rightarrow> List.find P ys | Some x \<Rightarrow> Some x)"
  by (induction xs) simp_all

lemma scan_roots_plist:
  "length L = length rs \<Longrightarrow> \<forall>c < length rs. plist s (rs ! c) (L ! c) \<Longrightarrow>
   scan_roots s asize rs = Some (first_fit s asize (concat L))"
proof (induction rs arbitrary: L)
  case Nil
  then show ?case by (simp add: first_fit_def)
next
  case (Cons r rs)
  then obtain l L' where L: "L = l # L'" by (cases L) auto
  from Cons.prems L have hd: "plist s r l" by auto
  from Cons.prems L have tl: "\<forall>c < length rs. plist s (rs ! c) (L' ! c)" by auto
  from Cons.prems L have len: "length L' = length rs" by simp
  show ?case
    using Cons.IH [OF len tl]
    by (simp add: L scan_list_plist [OF hd] first_fit_def find_app split: option.splits)
qed

lemma class_of_mono: "a \<le> b \<Longrightarrow> class_of a \<le> class_of b"
  by (simp add: class_of_def)

lemma first_fit_drop:
  assumes len: "c0 \<le> length L"
    and small: "\<forall>c < c0. \<forall>b \<in> set (L ! c). \<not> fits s asize b"
  shows "first_fit s asize (concat L) = first_fit s asize (concat (drop c0 L))"
  using assms
proof (induction c0 arbitrary: L)
  case 0
  then show ?case by simp
next
  case (Suc c0)
  then obtain l L' where L: "L = l # L'" by (cases L) auto
  from Suc.prems L have nofit: "\<forall>b \<in> set l. \<not> fits s asize b" by auto
  then have f: "List.find (fits s asize) l = None" by (simp add: find_None_iff)
  from Suc.prems L have a: "\<forall>c < c0. \<forall>b \<in> set (L' ! c). \<not> fits s asize b" by auto
  from Suc.prems L have b: "c0 \<le> length L'" by simp
  have "first_fit s asize (concat L') = first_fit s asize (concat (drop c0 L'))"
    by (rule Suc.IH [OF b a])
  then show ?case
    using f by (simp add: L first_fit_def find_app)
qed


lemma all_less_10:
  "(\<forall>c < (10::nat). P c) \<longleftrightarrow>
     P 0 \<and> P 1 \<and> P 2 \<and> P 3 \<and> P 4 \<and> P 5 \<and> P 6 \<and> P 7 \<and> P 8 \<and> P 9"
proof -
  have "(\<forall>c < Suc (Suc (Suc (Suc (Suc (Suc (Suc (Suc (Suc (Suc 0))))))))). P c) \<longleftrightarrow>
     P 0 \<and> P 1 \<and> P 2 \<and> P 3 \<and> P 4 \<and> P 5 \<and> P 6 \<and> P 7 \<and> P 8 \<and> P 9"
    by (simp only: All_less_Suc) (auto simp: eval_nat_numeral)
  then show ?thesis by (simp add: eval_nat_numeral)
qed

lemma unat_ucast_up: "unat (ucast (w :: uint) :: size_t) = unat w"
proof -
  have "unat w < 2 ^ 32" using unsigned_less [of w] by simp
  then have "unat w < 2 ^ 64" by simp
  then show ?thesis
    by (simp add: unsigned_ucast_eq take_bit_nat_eq_self)
qed

lemma fits_unat: "fits s asize b \<longleftrightarrow> unat asize \<le> unat (GET_SIZE s (HDRP b))"
  by (simp add: fits_def word_le_nat_alt unat_ucast_up)

text \<open>
  Claim C2, as amended: when the ten buckets are lists \<open>L ! 0\<close>, ..., \<open>L ! 9\<close> ending at the
  sentinel, \<open>find_fit\<close> returns the first block of \<open>L ! 0 @ ... @ L ! 9\<close> whose size is at
  least the requested size, and null when there is none: it scans every class in
  ascending order starting from the smallest one, each list in list order.  When every
  block is in the list of the class of its size, this is also the block that a scan
  starting from the class of the requested size returns.
\<close>

theorem C2_find_fit_scans_all_classes:
  assumes "length L = 10" and "\<forall>c < 10. plist s (roots s ! c) (L ! c)"
  shows "find_fit s asize = Some (first_fit s asize (concat L))
    \<and> ((\<forall>c < 10. \<forall>b \<in> set (L ! c). class_of (unat (GET_SIZE s (HDRP b))) = c)
         \<longrightarrow> find_fit s asize = Some (find_fit_spec s asize L))"
proof
  show ff: "find_fit s asize = Some (first_fit s asize (concat L))"
    using assms by (simp add: find_fit_scan_roots scan_roots_plist)
  show "(\<forall>c < 10. \<forall>b \<in> set (L ! c). class_of (unat (GET_SIZE s (HDRP b))) = c)
         \<longrightarrow> find_fit s asize = Some (find_fit_spec s asize L)"
  proof
    assume part: "\<forall>c < 10. \<forall>b \<in> set (L ! c). class_of (unat (GET_SIZE s (HDRP b))) = c"
    have small: "\<forall>c < class_of (unat asize). \<forall>b \<in> set (L ! c). \<not> fits s asize b"
    proof (intro allI impI ballI)
      fix c b
      assume c: "c < class_of (unat asize)" and b: "b \<in> set (L ! c)"
      from c have "c < 10" using class_of_less [of "unat asize"] by simp
      with part b have "class_of (unat (GET_SIZE s (HDRP b))) = c" by blast
      with c have "\<not> unat asize \<le> unat (GET_SIZE s (HDRP b))"
        using class_of_mono [of "unat asize" "unat (GET_SIZE s (HDRP b))"] by auto
      then show "\<not> fits s asize b" by (simp add: fits_unat)
    qed
    have "class_of (unat asize) \<le> length L"
      using class_of_less [of "unat asize"] assms(1) by simp
    from first_fit_drop [OF this small] ff
    show "find_fit s asize = Some (find_fit_spec s asize L)"
      by (simp add: find_fit_spec_def)
  qed
qed

lemmas list_eval = all_less_10 roots_def class_of_def fits_def first_fit_def find_fit_spec_def
  GET_SIZE_def HDRP_def GET_def GET_NEXT_def OF2ADDR_def load32_words size2ptr_def

lemma ff3_plist: "\<forall>c < 10. plist ff3 (roots ff3 ! c) (ff3_lists ! c)"
  by (simp add: list_eval ff3_lists_def ff3_def)

lemma ff3_classes:
  "\<forall>c < 10. \<forall>b \<in> set (ff3_lists ! c). class_of (unat (GET_SIZE ff3 (HDRP b))) = c"
  by (simp add: list_eval ff3_lists_def ff3_def)

text \<open>The theorem of C2 at the arena \<open>ff3\<close> and the request 4000.\<close>

theorem C2_find_fit_scans_all_classes_witness:
  "length ff3_lists = 10
   \<and> list_all (\<lambda>c. plist ff3 (roots ff3 ! c) (ff3_lists ! c)) [0..<10]
   \<and> list_all (\<lambda>c. list_all (\<lambda>b. class_of (unat (GET_SIZE ff3 (HDRP b))) = c) (ff3_lists ! c))
         [0..<10]
   \<and> find_fit ff3 4000 = Some (first_fit ff3 4000 (concat ff3_lists))
   \<and> find_fit ff3 4000 = Some (find_fit_spec ff3 4000 ff3_lists)
   \<and> find_fit_spec ff3 4000 ff3_lists = 0x10030"
proof -
  have len: "length ff3_lists = 10" by (simp add: ff3_lists_def)
  have v: "find_fit_spec ff3 4000 ff3_lists = 0x10030"
    by (simp add: list_eval ff3_lists_def ff3_def)
  have p: "list_all (\<lambda>c. plist ff3 (roots ff3 ! c) (ff3_lists ! c)) [0..<10]"
    using ff3_plist by (simp add: list_all_iff)
  have c: "list_all (\<lambda>c. list_all (\<lambda>b. class_of (unat (GET_SIZE ff3 (HDRP b))) = c)
             (ff3_lists ! c)) [0..<10]"
    using ff3_classes by (simp add: list_all_iff)
  show ?thesis
    using C2_find_fit_scans_all_classes [OF len ff3_plist, of 4000] len ff3_classes v p c
    by blast
qed

text \<open>
  C2 as stated fails on the scan order: in \<open>ff3\<close> the request 4000 belongs to class 8,
  whose list is the single block \<open>0x10030\<close>, yet \<open>find_fit\<close> first reads the header
  of \<open>0x10010\<close>, the block in the list of class 0.
\<close>

theorem C2_scan_order_counterexample:
  "find_fit_trace ff3 4000 = Some [0x10010, 0x10030]
   \<and> roots ff3 ! 0 = 0x10010
   \<and> class_of (unat (4000 :: size_t)) = 8
   \<and> roots ff3 ! 8 = 0x10030"
  by (simp add: find_fit_trace_def find_fit_reads.simps scan_list_reads.simps scan_list.simps
      list_eval ff3_def cong: eval_cong)

section \<open>Initialisation on first use\<close>

lemma unat_lt64: "unat (x :: ptr) < 2 ^ 64"
  using unsigned_less [of x] by simp

lemma unat_plus_small:
  fixes b :: ptr
  assumes "unat b + n < 2 ^ 64"
  shows "unat (b + of_nat n) = unat b + n"
proof -
  have "n < 2 ^ 64" using assms by simp
  then have "unat (of_nat n :: ptr) = n" by (simp add: unat_of_nat)
  with assms show ?thesis by (simp add: unat_word_ariths)
qed

lemma mem_sbrk_ok:
  "unat (mem_brk s) + unat incr \<le> unat (mem_max_addr s) \<Longrightarrow>
   mem_sbrk s incr = (mem_brk s, s\<lparr>mem_brk := mem_brk s + incr\<rparr>)"
  by (simp add: mem_sbrk_def)

lemma GET_PUT_same: "GET (PUT s p v) p = v"
  by (simp add: GET_def PUT_def load32_store32_same)

lemma GET_PUT_other: "4 \<le> q - p \<Longrightarrow> 4 \<le> p - q \<Longrightarrow> GET (PUT s p v) q = GET s q"
  by (simp add: GET_def PUT_def load32_store32_other)

lemma GET_upd [simp]:
  "GET (s\<lparr>mem_brk := a\<rparr>) p = GET s p" "GET (s\<lparr>heap_listp := a\<rparr>) p = GET s p"
  "GET (s\<lparr>root := a\<rparr>) p = GET s p"
  "GET (s\<lparr>root1 := a\<rparr>) p = GET s p" "GET (s\<lparr>root2 := a\<rparr>) p = GET s p"
  "GET (s\<lparr>root3 := a\<rparr>) p = GET s p" "GET (s\<lparr>root4 := a\<rparr>) p = GET s p"
  "GET (s\<lparr>root5 := a\<rparr>) p = GET s p" "GET (s\<lparr>root6 := a\<rparr>) p = GET s p"
  "GET (s\<lparr>root7 := a\<rparr>) p = GET s p" "GET (s\<lparr>root8 := a\<rparr>) p = GET s p"
  "GET (s\<lparr>root9 := a\<rparr>) p = GET s p" "GET (s\<lparr>root10 := a\<rparr>) p = GET s p"
  by (simp_all add: GET_def)

lemma PUT_sel [simp]:
  "mem_brk (PUT s p v) = mem_brk s" "mem_max_addr (PUT s p v) = mem_max_addr s"
  "heap_listp (PUT s p v) = heap_listp s" "root (PUT s p v) = root s"
  "root1 (PUT s p v) = root1 s" "root2 (PUT s p v) = root2 s" "root3 (PUT s p v) = root3 s"
  "root4 (PUT s p v) = root4 s" "root5 (PUT s p v) = root5 s" "root6 (PUT s p v) = root6 s"
  "root7 (PUT s p v) = root7 s" "root8 (PUT s p v) = root8 s" "root9 (PUT s p v) = root9 s"
  "root10 (PUT s p v) = root10 s"
  by (simp_all add: PUT_def)

lemma at_zero: "at b 0 = b"
  by (simp add: at_def)

lemma at_plus_num [simp]: "at b k + numeral n = at b (k + numeral n)"
  by (simp add: at_def)

lemma at_plus_num' [simp]: "numeral n + at b k = at b (k + numeral n)"
  by (simp add: at_def)

lemma at_plus_ucast [simp]: "at b k + ucast (w :: uint) = at b (k + unat w)"
  by (simp add: at_def)

lemma at_minus_num [simp]: "numeral n \<le> k \<Longrightarrow> at b k - numeral n = at b (k - numeral n)"
  by (simp add: at_def)

lemma at_diff [simp]: "at b k - at b j = of_nat k - of_nat j"
  by (simp add: at_def)

lemma at_sep:
  assumes "j < 2 ^ 32" "k < 2 ^ 32" "j + 4 \<le> k \<or> k + 4 \<le> j"
  shows "4 \<le> at b j - at b k"
proof -
  have jk: "j < 2 ^ 64" "k < 2 ^ 64" using assms(1,2) by simp_all
  have "4 \<le> unat (of_nat j - of_nat k :: 64 word)"
    using assms unat_diff_of_nat [OF jk] by auto
  then show ?thesis by (simp add: word_le_nat_alt)
qed

lemma GET_PUT_at:
  assumes "j < 2 ^ 32" "k < 2 ^ 32" "j = k \<or> j + 4 \<le> k \<or> k + 4 \<le> j"
  shows "GET (PUT s (at b k) v) (at b j) = (if j = k then v else GET s (at b j))"
proof (cases "j = k")
  case True
  then show ?thesis by (simp add: GET_PUT_same)
next
  case False
  with assms have d: "j + 4 \<le> k \<or> k + 4 \<le> j" by simp
  then have d': "k + 4 \<le> j \<or> j + 4 \<le> k" by auto
  show ?thesis
    using False GET_PUT_other [OF at_sep [OF assms(1,2) d] at_sep [OF assms(2,1) d']]
    by simp
qed

lemma at_neq: "j < 2 ^ 32 \<Longrightarrow> k < 2 ^ 32 \<Longrightarrow> at b j = at b k \<longleftrightarrow> j = k"
  by (simp add: at_def word_of_nat_eq_iff take_bit_nat_eq_self)

lemmas sym_eval = mm_init_def extend_heap_def coalesce_def insert_list_def
  size2ptr_def update_root_def
  SET_PREV_gen SET_NEXT_gen HDRP_def FTRP_def
  NEXT_BLKP_def PREV_BLKP_def GET_SIZE_def GET_ALLOC_def GET_PREV_ALLOC_def PACK_def
  GET_PUT_at at_neq Let_def

lemma room2:
  assumes room: "unat (mem_brk s) + 4112 \<le> unat (mem_max_addr s)"
  shows "unat (mem_brk s + 16) + unat (4096 :: size_t) \<le> unat (mem_max_addr s)"
proof -
  have "unat (mem_brk s + 16) = unat (mem_brk s) + 16"
    using unat_plus_small [of "mem_brk s" 16] room unat_lt64 [of "mem_max_addr s"] by simp
  then show ?thesis using room by simp
qed

lemma room_neq:
  assumes room: "unat (mem_brk s) + 4112 \<le> unat (mem_max_addr s)"
  shows "mem_brk s \<noteq> - 1" "mem_brk s + 16 \<noteq> - 1" "mem_brk s + 8 \<noteq> 0"
    "mem_brk s + 16 \<noteq> 0"
proof -
  have m: "unat (mem_max_addr s) < 2 ^ 64" by (rule unat_lt64)
  have u: "unat (- 1 :: ptr) = 2 ^ 64 - 1"
    by (simp add: unsigned_minus_1_eq_mask mask_eq_exp_minus_1)
  have a: "unat (mem_brk s + 16) = unat (mem_brk s) + 16"
    using unat_plus_small [of "mem_brk s" 16] room m by simp
  have b: "unat (mem_brk s + 8) = unat (mem_brk s) + 8"
    using unat_plus_small [of "mem_brk s" 8] room m by simp
  show "mem_brk s \<noteq> - 1"
  proof
    assume "mem_brk s = - 1"
    then have "unat (mem_brk s) = unat (- 1 :: ptr)" by (rule arg_cong)
    then have "unat (mem_brk s) = 2 ^ 64 - 1" using u by simp
    with room m show False by simp
  qed
  show "mem_brk s + 16 \<noteq> - 1"
  proof
    assume "mem_brk s + 16 = - 1"
    then have "unat (mem_brk s + 16) = unat (- 1 :: ptr)" by (rule arg_cong)
    then have "unat (mem_brk s + 16) = 2 ^ 64 - 1" using u by simp
    with a room m show False by simp
  qed
  show "mem_brk s + 8 \<noteq> 0"
  proof
    assume "mem_brk s + 8 = 0"
    then have "unat (mem_brk s + 8) = unat (0 :: ptr)" by (rule arg_cong)
    then have "unat (mem_brk s + 8) = 0" by simp
    with b show False by simp
  qed
  show "mem_brk s + 16 \<noteq> 0"
  proof
    assume "mem_brk s + 16 = 0"
    then have "unat (mem_brk s + 16) = unat (0 :: ptr)" by (rule arg_cong)
    then have "unat (mem_brk s + 16) = 0" by simp
    with a show False by simp
  qed
qed

lemma mm_init_at:
  assumes h: "heap_listp s = NULL" and b: "mem_brk s = at b 0"
    and room: "unat (mem_brk s) + 4112 \<le> unat (mem_max_addr s)"
  shows "mm_init s =
    (0, PUT (PUT (PUT (PUT (PUT (PUT (PUT (PUT (PUT (PUT
          (s\<lparr>mem_brk := at b 16, heap_listp := at b 0\<rparr>) (at b 0) 0) (at b 4) 11)
          (at b 8) 11) (at b 12) 3
          \<lparr>heap_listp := at b 8, root := at b 8, root1 := at b 8, root2 := at b 8,
           root3 := at b 8, root4 := at b 8, root5 := at b 8, root6 := at b 8,
           root7 := at b 8, root8 := at b 8, root9 := at b 8, root10 := at b 8,
           mem_brk := at b 4112\<rparr>)
          (at b 12) 4098) (at b 4104) 4096) (at b 4108) 1 \<lparr>root := at b 8\<rparr>)
          (at b 16) 0) (at b 20) 0 \<lparr>root := at b 16, root9 := at b 16\<rparr>) (at b 4108) 1)"
  using h b room room2 [OF room] room_neq [OF room]
  by (simp add: sym_eval mem_sbrk_def cong: eval_cong)

lemma coalesce_frame:
  "heap_listp (snd (coalesce s bp)) = heap_listp s"
  "mem_brk (snd (coalesce s bp)) = mem_brk s"
  "mem_max_addr (snd (coalesce s bp)) = mem_max_addr s"
  by (simp_all add: coalesce_def Let_def insert_list_frame remove_list_frame PUT_frame)

lemma arena_initial_at:
  "arena_initial s b \<longleftrightarrow>
     heap_listp s = at b 8 \<and> mem_brk s = at b 4112
     \<and> GET s (at b 4) = 11 \<and> GET s (at b 8) = 11
     \<and> GET s (at b 12) = 4098 \<and> GET s (at b 4104) = 4096
     \<and> GET s (at b 16) = 0 \<and> GET s (at b 20) = 0
     \<and> GET s (at b 4108) = 1
     \<and> roots s = [at b 8, at b 8, at b 8, at b 8, at b 8, at b 8, at b 8, at b 8, at b 16,
          at b 8]"
proof -
  have "(ucast (w :: uint) :: size_t) = 0 \<longleftrightarrow> w = 0" for w
  proof
    assume "(ucast w :: size_t) = 0"
    then have "unat (ucast w :: size_t) = unat (0 :: size_t)" by (rule arg_cong)
    then show "w = 0" by (simp add: unat_ucast_up unat_eq_0)
  qed simp
  then have z: "(ucast (w :: uint) :: size_t) + h = h \<longleftrightarrow> w = 0" for w h
    by simp
  show ?thesis
    unfolding arena_initial_def GET_PREV_def GET_NEXT_def OF2ADDR_def z
    by (simp add: at_def add.assoc)
qed

lemma arena_initial_mm_init:
  assumes h: "heap_listp s = NULL"
    and room: "unat (mem_brk s) + 4112 \<le> unat (mem_max_addr s)"
  shows "fst (mm_init s) = 0" "arena_initial (snd (mm_init s)) (mem_brk s)"
proof -
  have b: "mem_brk s = at (mem_brk s) 0" by (simp add: at_zero)
  show "fst (mm_init s) = 0"
    by (simp add: mm_init_at [OF h b room])
  show "arena_initial (snd (mm_init s)) (mem_brk s)"
    by (simp add: mm_init_at [OF h b room] arena_initial_at roots_def GET_PUT_at)
qed


lemma scan_list_end: "bp = heap_listp s \<Longrightarrow> scan_list s asize bp = Some Exhausted"
  by (subst scan_list.simps) simp

lemma scan_list_fit:
  "bp \<noteq> heap_listp s \<Longrightarrow> asize \<le> ucast (GET_SIZE s (HDRP bp)) \<Longrightarrow>
   scan_list s asize bp = Some (Fit bp)"
  by (subst scan_list.simps) simp

lemma find_fit_initial:
  assumes a: "arena_initial s b" and sz: "asize \<le> 4096"
  shows "find_fit s asize = Some (b + 16)"
proof -
  have hl: "heap_listp s = b + 8" and r: "roots s = [b + 8, b + 8, b + 8, b + 8, b + 8,
      b + 8, b + 8, b + 8, b + 16, b + 8]" and g: "GET s (b + 12) = 4098"
    using a by (simp_all add: arena_initial_def)
  have e: "scan_list s asize (b + 8) = Some Exhausted"
    by (rule scan_list_end) (simp add: hl)
  have hd: "HDRP (b + 16) = b + 12" by (simp add: HDRP_def)
  have "GET_SIZE s (HDRP (b + 16)) = 4096"
    unfolding hd GET_SIZE_def g by simp
  then have f: "scan_list s asize (b + 16) = Some (Fit (b + 16))"
    using sz by (intro scan_list_fit) (simp_all add: hl)
  show ?thesis
    by (simp add: find_fit_scan_roots r e f)
qed

lemma asize_small:
  assumes "n \<le> (4092 :: size_t)"
  shows "(if n \<le> 4 then 16 else 8 * ((n + 11) div 8)) \<le> (4096 :: size_t)"
proof (cases "n \<le> 4")
  case True
  then show ?thesis by simp
next
  case False
  have n: "unat n \<le> 4092" using assms by (simp add: word_le_nat_alt)
  then have a: "unat (n + 11) = unat n + 11" by (simp add: unat_word_ariths)
  have d: "unat ((n + 11) div 8) = (unat n + 11) div 8" by (simp add: unat_div a)
  have "(unat n + 11) div 8 \<le> 512" using n by simp
  then have "unat (8 * ((n + 11) div 8)) = 8 * ((unat n + 11) div 8)"
    by (simp add: unat_word_ariths d)
  then have "unat (8 * ((n + 11) div 8)) \<le> 4096" using n by simp
  then show ?thesis using False by (simp add: word_le_nat_alt)
qed


lemma free_null: "free s NULL = s"
  by (simp add: free_def)

lemma run_tiny: "malloc heap_tiny 1 = Some (NULL, heap_tiny\<lparr>heap_listp := - 1\<rparr>)"
  by (simp add: eval_defs heap_tiny_def boot_def cong: eval_cong)

lemma run_fresh_free: "GET (free heap_fresh 0x10010) 0x1000C = 0"
  by (simp add: eval_defs heap_fresh_def boot_def cong: eval_cong)

lemma run_init_free: "GET (free heap_init 0x10010) 0x1000C = 4098"
  by (simp add: eval_defs heap_init_def cong: eval_cong)

text \<open>
  C9 as stated fails in three ways.  \<open>release(null)\<close> on an allocator that was never
  initialised returns at once and the heap base stays unset.  \<open>release\<close> of a non-null
  pointer reads the size field in front of the pointer before it initialises, so it
  does not proceed as on the initialised arena: here it leaves the header of the
  initial chunk at 0 where release on the initialised arena leaves 4098.  And when
  the arena cannot grow by 16 bytes, \<open>allocate\<close> builds nothing: no word of memory
  is written, no list head is set and the heap base is the failure value of the
  growth primitive.
\<close>

theorem C9_uninitialised_counterexample:
  "heap_listp heap_fresh = NULL \<and> free heap_fresh NULL = heap_fresh
     \<and> heap_listp (free heap_fresh NULL) = NULL
     \<and> GET (free heap_fresh 0x10010) 0x1000C = 0
     \<and> GET (free (snd (mm_init heap_fresh)) 0x10010) 0x1000C = 4098
     \<and> heap_listp heap_tiny = NULL
     \<and> malloc heap_tiny 1 = Some (NULL, heap_tiny\<lparr>heap_listp := - 1\<rparr>)"
proof -
  have "heap_listp heap_fresh = NULL" "heap_listp heap_tiny = NULL"
    by (simp_all add: heap_fresh_def heap_tiny_def boot_def)
  then show ?thesis
    by (simp add: free_null run_tiny run_fresh_free run_init run_init_free)
qed

text \<open>
  Claim C9, as amended.  On an allocator that was never initialised and whose arena
  can grow by the initial 16 + 4096 bytes, \<open>mm_init\<close> succeeds and builds the prologue
  block, the epilogue header, the ten list heads and one free chunk of 4096 bytes.
  \<open>allocate\<close> runs it first and then proceeds as on that arena: \<open>allocate(0)\<close> returns
  null, and a request of at most 4092 bytes is placed at the start of the initial chunk,
  whose payload address is returned.  \<open>release(null)\<close> returns at once and initialises
  nothing.  \<open>release\<close> of a non-null pointer reads the size field in front of the
  pointer, then runs \<open>mm_init\<close>, and then clears the allocation bit, writes the footer
  and coalesces with the size read before; it is \<open>release\<close> on the initialised arena
  whenever the initialisation leaves that size field as it was.
\<close>

theorem C9_lazy_initialisation:
  assumes h: "heap_listp s = NULL"
    and room: "unat (mem_brk s) + 4112 \<le> unat (mem_max_addr s)"
  shows "fst (mm_init s) = 0 \<and> arena_initial (snd (mm_init s)) (mem_brk s)
    \<and> malloc s n = malloc (snd (mm_init s)) n
    \<and> malloc s 0 = Some (NULL, snd (mm_init s))
    \<and> (0 < n \<and> n \<le> 4092 \<longrightarrow>
          malloc s n = Some (mem_brk s + 16,
            place (snd (mm_init s)) (mem_brk s + 16) (if n \<le> 4 then 16 else 8 * ((n + 11) div 8))))
    \<and> free s NULL = s
    \<and> (bp \<noteq> NULL \<longrightarrow>
          free s bp =
            (let sz = ucast (GET_SIZE s (HDRP bp));
                 s1 = snd (mm_init s);
                 s2 = PUT s1 (HDRP bp) (ucast (PACK sz 0 OR ucast (GET_PREV_ALLOC s1 (HDRP bp))));
                 s3 = PUT s2 (FTRP s2 bp) (ucast (PACK sz 0))
             in snd (coalesce s3 bp))
          \<and> (GET_SIZE s (HDRP bp) = GET_SIZE (snd (mm_init s)) (HDRP bp) \<longrightarrow>
                free s bp = free (snd (mm_init s)) bp))"
proof -
  note ini = arena_initial_mm_init [OF h room]
  have hl: "heap_listp (snd (mm_init s)) = mem_brk s + 8"
    using ini(2) by (simp add: arena_initial_def)
  have nz: "heap_listp (snd (mm_init s)) \<noteq> NULL"
    using hl room_neq(3) [OF room] by simp
  have m: "malloc s n = malloc (snd (mm_init s)) n" for n
    using h nz by (simp add: malloc_def)
  have m0: "malloc s 0 = Some (NULL, snd (mm_init s))"
    using h by (simp add: malloc_def)
  have mn: "malloc s n = Some (mem_brk s + 16,
      place (snd (mm_init s)) (mem_brk s + 16) (if n \<le> 4 then 16 else 8 * ((n + 11) div 8)))"
    if n: "0 < n" "n \<le> 4092"
  proof -
    have ff: "find_fit (snd (mm_init s)) (if n \<le> 4 then 16 else 8 * ((n + 11) div 8))
        = Some (mem_brk s + 16)"
      by (rule find_fit_initial [OF ini(2) asize_small [OF n(2)]])
    have n0: "n \<noteq> 0" using n(1) by simp
    have bp: "mem_brk s + 16 \<noteq> NULL" by (rule room_neq(4) [OF room])
    show ?thesis
      unfolding m [of n]
    proof (cases "n \<le> 4")
      case True
      with ff have "find_fit (snd (mm_init s)) 16 = Some (mem_brk s + 16)" by simp
      with True n0 nz bp show "malloc (snd (mm_init s)) n = Some (mem_brk s + 16,
          place (snd (mm_init s)) (mem_brk s + 16) (if n \<le> 4 then 16 else 8 * ((n + 11) div 8)))"
        by (simp add: malloc_def Let_def)
    next
      case False
      with ff have "find_fit (snd (mm_init s)) (8 * ((n + 11) div 8)) = Some (mem_brk s + 16)"
        by simp
      with False n0 nz bp show "malloc (snd (mm_init s)) n = Some (mem_brk s + 16,
          place (snd (mm_init s)) (mem_brk s + 16) (if n \<le> 4 then 16 else 8 * ((n + 11) div 8)))"
        by (simp add: malloc_def Let_def add.commute)
    qed
  qed
  have f1: "free s bp =
            (let sz = ucast (GET_SIZE s (HDRP bp));
                 s1 = snd (mm_init s);
                 s2 = PUT s1 (HDRP bp) (ucast (PACK sz 0 OR ucast (GET_PREV_ALLOC s1 (HDRP bp))));
                 s3 = PUT s2 (FTRP s2 bp) (ucast (PACK sz 0))
             in snd (coalesce s3 bp))" if "bp \<noteq> NULL"
    using h that by (simp add: free_def)
  have f2: "free s bp = free (snd (mm_init s)) bp"
    if "bp \<noteq> NULL" "GET_SIZE s (HDRP bp) = GET_SIZE (snd (mm_init s)) (HDRP bp)"
    using h that nz by (simp add: free_def)
  show ?thesis
    using ini m m0 mn f1 f2 free_null by blast
qed

text \<open>
  The theorem of C9 at the uninitialised arena \<open>heap_fresh\<close>, for a request of one byte
  and for the release of the address \<open>0x20000\<close>, where memory holds 0 before and after the
  initialisation.
\<close>

theorem C9_lazy_initialisation_witness:
  "heap_listp heap_fresh = NULL
   \<and> unat (mem_brk heap_fresh) + 4112 \<le> unat (mem_max_addr heap_fresh)
   \<and> fst (mm_init heap_fresh) = 0
   \<and> arena_initial (snd (mm_init heap_fresh)) (mem_brk heap_fresh)
   \<and> malloc heap_fresh 1 = malloc (snd (mm_init heap_fresh)) 1
   \<and> malloc heap_fresh 0 = Some (NULL, snd (mm_init heap_fresh))
   \<and> malloc heap_fresh 1 = Some (mem_brk heap_fresh + 16,
        place (snd (mm_init heap_fresh)) (mem_brk heap_fresh + 16) 16)
   \<and> free heap_fresh NULL = heap_fresh
   \<and> GET_SIZE heap_fresh (HDRP 0x20000) = GET_SIZE (snd (mm_init heap_fresh)) (HDRP 0x20000)
   \<and> free heap_fresh 0x20000 = free (snd (mm_init heap_fresh)) 0x20000
   \<and> snd (mm_init heap_fresh) = heap_init \<and> mem_brk heap_fresh + 16 = 0x10010"
proof -
  have h: "heap_listp heap_fresh = NULL"
    by (simp add: heap_fresh_def boot_def)
  have room: "unat (mem_brk heap_fresh) + 4112 \<le> unat (mem_max_addr heap_fresh)"
    by (simp add: heap_fresh_def boot_def)
  have b: "mem_brk heap_fresh + 16 = 0x10010"
    by (simp add: heap_fresh_def boot_def)
  have i: "snd (mm_init heap_fresh) = heap_init"
    by (simp add: run_init)
  have g: "GET_SIZE heap_fresh (HDRP 0x20000) = GET_SIZE (snd (mm_init heap_fresh)) (HDRP 0x20000)"
    unfolding i by (simp add: eval_defs heap_fresh_def boot_def heap_init_def)
  have n: "0 < (1 :: size_t) \<and> (1 :: size_t) \<le> 4092" and p: "(0x20000 :: ptr) \<noteq> NULL"
    by simp_all
  have a: "(if (1 :: size_t) \<le> 4 then 16 else 8 * ((1 + 11) div 8)) = (16 :: size_t)"
    by simp
  show ?thesis
    using C9_lazy_initialisation [OF h room, of 1 "0x20000", unfolded a] h room g n p b i
    by blast
qed

section \<open>Footprints\<close>

lemma bytes_of_cong: "heap_listp s' = heap_listp s \<Longrightarrow> bytes_of s' S = bytes_of s S"
  by (simp add: bytes_of_def adr_def)

lemma bytes_of_mono: "S \<subseteq> T \<Longrightarrow> bytes_of s S \<subseteq> bytes_of s T"
  by (auto simp: bytes_of_def)

lemma bytes_of_Un: "bytes_of s (S \<union> T) = bytes_of s S \<union> bytes_of s T"
  by (auto simp: bytes_of_def)

lemma upd_refl: "upd {} s s"
  by (simp add: upd_def)

lemma upd_mono: "upd S s s' \<Longrightarrow> S \<subseteq> T \<Longrightarrow> upd T s s'"
  unfolding upd_def using bytes_of_mono [of S T s] by blast

lemma upd_trans:
  assumes "upd S s s'" "upd T s' s''"
  shows "upd (S \<union> T) s s''"
proof -
  have h: "heap_listp s' = heap_listp s" using assms(1) by (simp add: upd_def)
  have "mem s'' a = mem s a" if "a \<notin> bytes_of s (S \<union> T)" for a
  proof -
    have "a \<notin> bytes_of s S" "a \<notin> bytes_of s' T"
      using that by (simp_all add: bytes_of_Un bytes_of_cong [OF h])
    then show ?thesis using assms by (simp add: upd_def)
  qed
  then show ?thesis using assms by (simp add: upd_def)
qed

lemma upd_fields:
  "mem s' = mem s \<Longrightarrow> heap_listp s' = heap_listp s \<Longrightarrow> mem_brk s' = mem_brk s \<Longrightarrow>
   mem_max_addr s' = mem_max_addr s \<Longrightarrow> upd {} s s'"
  by (simp add: upd_def)

lemma upd_PUT: "upd {k} s (PUT s (adr s k) v)"
proof -
  have "a \<noteq> adr s k \<and> a \<noteq> adr s k + 1 \<and> a \<noteq> adr s k + 2 \<and> a \<noteq> adr s k + 3"
    if "a \<notin> bytes_of s {k}" for a
  proof -
    have "a \<noteq> adr s (k + i)" if "i < 4" for i
      using \<open>a \<notin> bytes_of s {k}\<close> that by (auto simp: bytes_of_def)
    from this [of 0] this [of 1] this [of 2] this [of 3]
    show ?thesis
      using adr_plus [of s k 1] adr_plus [of s k 2] adr_plus [of s k 3] by simp
  qed
  then show ?thesis
    by (simp add: upd_def PUT_def store32_def)
qed

lemma al4_eq: "4 dvd j \<Longrightarrow> 4 dvd k \<Longrightarrow> i < 4 \<Longrightarrow> i' < 4 \<Longrightarrow> j + i = k + i' \<Longrightarrow> j = (k::nat)"
  by presburger

lemma load32_cong:
  "m' p = m p \<Longrightarrow> m' (p + 1) = m (p + 1) \<Longrightarrow> m' (p + 2) = m (p + 2) \<Longrightarrow> m' (p + 3) = m (p + 3)
   \<Longrightarrow> load32 m' p = load32 m p"
  by (simp add: load32_def)

lemma upd_wd:
  assumes u: "upd S s s'" and S: "\<forall>k \<in> S. wal k" and j: "wal j" "j \<notin> S"
  shows "wd s' j = wd s j"
proof -
  have nb: "adr s (j + i) \<notin> bytes_of s S" if "i < 4" for i
  proof
    assume "adr s (j + i) \<in> bytes_of s S"
    then obtain k i' where k: "k \<in> S" "i' < 4" "adr s (j + i) = adr s (k + i')"
      unfolding bytes_of_def by blast
    have wk: "wal k" using S k(1) by simp
    then have "j + i < 2 ^ 64" "k + i' < 2 ^ 64" using j(1) that k(2) by (simp_all add: wal_def)
    then have "j + i = k + i'" using k(3) adr_inj by blast
    then have "j = k" using wk j(1) that k(2) al4_eq unfolding wal_def by blast
    then show False using j(2) k(1) by simp
  qed
  have e: "mem s' (adr s (j + i)) = mem s (adr s (j + i))" if "i < 4" for i
    using u nb [OF that] by (simp add: upd_def)
  have h: "adr s' j = adr s j" using u by (simp add: upd_def adr_def)
  have "load32 (mem s') (adr s j) = load32 (mem s) (adr s j)"
    using e [of 0] e [of 1] e [of 2] e [of 3]
      adr_plus [of s j 1] adr_plus [of s j 2] adr_plus [of s j 3]
    by (intro load32_cong) simp_all
  then show ?thesis
    by (simp add: wd_def GET_def h)
qed

section \<open>Doubly linked buckets\<close>

lemma upd_PUT': "heap_listp s1 = heap_listp s \<Longrightarrow> upd {k} s1 (PUT s1 (adr s k) v)"
  using upd_PUT [of k s1 v] by (simp add: adr_def)

lemma upd_cong_r:
  "upd S s s1 \<Longrightarrow> mem s2 = mem s1 \<Longrightarrow> heap_listp s2 = heap_listp s1 \<Longrightarrow>
   mem_brk s2 = mem_brk s1 \<Longrightarrow> mem_max_addr s2 = mem_max_addr s1 \<Longrightarrow> upd S s s2"
  by (simp add: upd_def)

lemma upd_frame:
  "upd S s s' \<Longrightarrow> heap_listp s' = heap_listp s"
  "upd S s s' \<Longrightarrow> mem_brk s' = mem_brk s"
  "upd S s s' \<Longrightarrow> mem_max_addr s' = mem_max_addr s"
  "upd S s s' \<Longrightarrow> adr s' j = adr s j"
  by (simp_all add: upd_def adr_def)

lemma nodes_okD:
  "nodes_ok xs \<Longrightarrow> x \<in> set xs \<Longrightarrow> 8 dvd x \<and> 0 < x \<and> x + 4 < 2 ^ 32 \<and> wal x \<and> wal (x + 4)"
proof -
  assume a: "nodes_ok xs" "x \<in> set xs"
  then have b: "8 dvd x" "0 < x" "x + 4 < 2 ^ 32" by (simp_all add: nodes_ok_def)
  from b(1) have "4 dvd x" "4 dvd x + 4" by presburger+
  with b show ?thesis by (simp add: wal_def)
qed

lemma al8_neq: "8 dvd x \<Longrightarrow> 8 dvd y \<Longrightarrow> x + 4 \<noteq> (y::nat)"
  by presburger

lemma hd1_append: "hd1 (as @ bs) n = hd1 as (hd1 bs n)"
  by (cases as) simp_all

lemma last1_append: "last1 p (as @ bs) = last1 (last1 p as) bs"
  by (induction as arbitrary: p) simp_all

lemma last1_in: "as \<noteq> [] \<Longrightarrow> last1 p as \<in> set as"
proof (induction as arbitrary: p)
  case Nil
  then show ?case by simp
next
  case (Cons a as)
  then show ?case by (cases as) simp_all
qed

lemma last1_last: "as \<noteq> [] \<Longrightarrow> last1 p as = last as"
  by (induction as arbitrary: p) auto

lemma dlseg_append:
  "dlseg s pv (as @ bs) nx \<longleftrightarrow> dlseg s pv as (hd1 bs nx) \<and> dlseg s (last1 pv as) bs nx"
  by (induction as arbitrary: pv) (auto simp: hd1_append)

lemma dlseg_frame:
  "\<forall>x \<in> set xs. wd s' x = wd s x \<and> wd s' (x + 4) = wd s (x + 4) \<Longrightarrow>
   dlseg s' pv xs nx = dlseg s pv xs nx"
  by (induction xs arbitrary: pv) simp_all

lemma dlseg_next:
  assumes "dlseg s p as n" "\<forall>y \<in> set as. wd s' y = wd s y"
    "\<forall>y \<in> set (butlast as). wd s' (y + 4) = wd s (y + 4)"
    "as \<noteq> [] \<longrightarrow> wd s' (last as + 4) = of_nat n'"
  shows "dlseg s' p as n'"
  using assms
proof (induction as arbitrary: p)
  case Nil
  then show ?case by simp
next
  case (Cons a as)
  show ?case
  proof (cases as)
    case Nil
    with Cons.prems show ?thesis by simp
  next
    case (Cons b bs)
    with Cons.prems Cons.IH [of a] show ?thesis by simp
  qed
qed

lemma dlseg_prev:
  assumes "dlseg s p bs n" "\<forall>y \<in> set bs. wd s' (y + 4) = wd s (y + 4)"
    "\<forall>y \<in> set (tl bs). wd s' y = wd s y"
    "bs \<noteq> [] \<longrightarrow> wd s' (hd bs) = of_nat p'"
  shows "dlseg s' p' bs n"
proof (cases bs)
  case Nil
  then show ?thesis by simp
next
  case (Cons b bs')
  have "dlseg s' b bs' n = dlseg s b bs' n"
    using assms(2,3) Cons by (intro dlseg_frame) simp
  with assms Cons show ?thesis by simp
qed

lemma dlseg_upd:
  assumes u: "upd S s s'" and S: "\<forall>k \<in> S. wal k" and n: "nodes_ok xs"
    and d: "links xs \<inter> S = {}"
  shows "dlseg s' pv xs nx = dlseg s pv xs nx"
proof (rule dlseg_frame, rule ballI)
  fix x assume x: "x \<in> set xs"
  then have "x \<notin> S" "x + 4 \<notin> S" using d unfolding links_def by blast+
  moreover have "wal x" "wal (x + 4)" using nodes_okD [OF n x] by simp_all
  ultimately show "wd s' x = wd s x \<and> wd s' (x + 4) = wd s (x + 4)"
    using upd_wd [OF u S] by simp
qed

lemma links_disj:
  assumes "nodes_ok xs" "nodes_ok ys" "set xs \<inter> set ys = {}"
  shows "links xs \<inter> links ys = {}"
proof -
  have "False" if j1: "j \<in> links xs" and j2: "j \<in> links ys" for j
  proof -
    obtain x where x: "x \<in> set xs" "j = x \<or> j = x + 4" using j1 by (auto simp: links_def)
    obtain y where y: "y \<in> set ys" "j = y \<or> j = y + 4" using j2 by (auto simp: links_def)
    have "8 dvd x" "8 dvd y" using nodes_okD assms(1,2) x(1) y(1) by blast+
    then have "x + 4 \<noteq> y" "y + 4 \<noteq> x" using al8_neq by blast+
    then have "x = y" using x(2) y(2) by auto
    then show False using x(1) y(1) assms(3) by blast
  qed
  then show ?thesis by blast
qed

lemma links_wal: "nodes_ok xs \<Longrightarrow> \<forall>k \<in> links xs. wal k"
  unfolding links_def using nodes_okD by blast

lemma links_mono: "set xs \<subseteq> set ys \<Longrightarrow> links xs \<subseteq> links ys"
  unfolding links_def by blast

lemma insert_list_upd:
  assumes kb: "k < 2 ^ 32" and h: "wal h" "roots s ! class_of (unat sz) = adr s h"
  shows "upd ({k, k + 4} \<union> (if h \<noteq> 0 then {h} else {})) s (insert_list s (adr s k) sz)"
proof -
  let ?s1 = "PUT s (adr s k) 0"
  let ?s2 = "PUT ?s1 (adr s (k + 4)) (of_nat h)"
  let ?s3 = "if h \<noteq> 0 then PUT ?s2 (adr s h) (of_nat k) else ?s2"
  have hl: "adr s h \<noteq> heap_listp s \<longleftrightarrow> h \<noteq> 0"
    using adr_inj [of h 0 s] h(1) by (simp add: adr_zero wal_def)
  have hb: "h < 2 ^ 32" using h by (simp add: wal_def)
  have m: "mem (insert_list s (adr s k) sz) = mem ?s3"
    using hl kb hb by (simp add: insert_list_mem size2ptr_roots h(2) Let_def ucast_off adr_num)
  have u1: "upd {k} s ?s1" by (rule upd_PUT)
  have u2: "upd {k + 4} ?s1 ?s2" by (rule upd_PUT') (simp add: PUT_frame)
  have u12: "upd {k, k + 4} s ?s2"
    using upd_trans [OF u1 u2] by (simp add: insert_commute)
  have u3: "upd ({k, k + 4} \<union> (if h \<noteq> 0 then {h} else {})) s ?s3"
  proof (cases "h = 0")
    case True
    then show ?thesis using u12 by simp
  next
    case False
    have "upd {h} ?s2 (PUT ?s2 (adr s h) (of_nat k))"
      by (rule upd_PUT') (simp add: PUT_frame)
    from upd_trans [OF u12 this] False show ?thesis by simp
  qed
  show ?thesis
    by (rule upd_cong_r [OF u3 m]) (simp_all add: insert_list_frame PUT_frame)
qed

lemma remove_list_upd:
  assumes pv: "unat (wd s k) = pv" "wal pv" "wal (pv + 4)"
    and nx: "unat (wd s (k + 4)) = nx" "wal nx"
  shows "upd ((if pv \<noteq> 0 then {pv + 4} else {}) \<union> (if nx \<noteq> 0 then {nx} else {})) s
           (remove_list s (adr s k) sz)"
proof -
  let ?s2 = "if pv \<noteq> 0 then PUT s (adr s (pv + 4)) (of_nat nx) else s"
  let ?s3 = "if nx \<noteq> 0 then PUT ?s2 (adr s nx) (of_nat pv) else ?s2"
  have b: "pv < 2 ^ 32" "nx < 2 ^ 32" using pv nx by (simp_all add: wal_def)
  have hl: "adr s pv \<noteq> heap_listp s \<longleftrightarrow> pv \<noteq> 0" "adr s nx \<noteq> heap_listp s \<longleftrightarrow> nx \<noteq> 0"
    using adr_inj [of pv 0 s] adr_inj [of nx 0 s] b by (simp_all add: adr_zero)
  have m: "mem (remove_list s (adr s k) sz) = mem ?s3"
    using hl b by (simp add: remove_list_mem Let_def GET_PREV_adr GET_NEXT_adr pv nx ucast_off adr_num)
  have u2: "upd (if pv \<noteq> 0 then {pv + 4} else {}) s ?s2"
    using upd_PUT [of "pv + 4" s] upd_refl [of s] by simp
  have h2: "heap_listp ?s2 = heap_listp s" by (simp add: PUT_frame)
  have u3: "upd (if nx \<noteq> 0 then {nx} else {}) ?s2 ?s3"
    using upd_PUT' [OF h2, of nx] upd_refl [of ?s2] by (simp del: adr_PUT)
  show ?thesis
    by (rule upd_cong_r [OF upd_trans [OF u2 u3] m]) (simp_all add: remove_list_frame PUT_frame)
qed

lemma al8_wal: "8 dvd x \<Longrightarrow> x + 4 < 2 ^ 32 \<Longrightarrow> wal x \<and> wal (x + 4)"
proof -
  assume a: "8 dvd x" "x + 4 < 2 ^ 32"
  from a(1) have "4 dvd x" "4 dvd x + 4" by presburger+
  with a show ?thesis by (simp add: wal_def)
qed

lemma lists_okD:
  assumes "lists_ok s L" "c < 10"
  shows "distinct (L ! c)" "nodes_ok (L ! c)" "roots s ! c = adr s (hd1 (L ! c) 0)"
    "dlseg s 0 (L ! c) 0" "length L = 10"
  using assms by (simp_all add: lists_ok_def)

lemma lists_ok_disj:
  "lists_ok s L \<Longrightarrow> c < 10 \<Longrightarrow> c' < 10 \<Longrightarrow> c \<noteq> c' \<Longrightarrow> y \<in> set (L ! c) \<Longrightarrow> y \<notin> set (L ! c')"
  unfolding lists_ok_def by blast

lemma hd1_cases: "(xs = [] \<and> hd1 xs 0 = 0) \<or> (xs \<noteq> [] \<and> hd1 xs 0 = hd xs \<and> hd1 xs 0 \<in> set xs)"
  by (cases xs) simp_all

lemma insert_list_ok:
  assumes ok: "lists_ok s L" and x: "x \<notin> nodes L" "8 dvd x" "0 < x" "x + 4 < 2 ^ 32"
    and c: "c = class_of (unat sz)"
  shows "lists_ok (insert_list s (adr s x) sz) (L[c := x # L ! c])"
    and "upd (links (x # take 1 (L ! c))) s (insert_list s (adr s x) sz)"
proof -
  let ?s' = "insert_list s (adr s x) sz"
  define h where "h = hd1 (L ! c) 0"
  have c10: "c < 10" using c class_of_less by simp
  note okc = lists_okD [OF ok c10]
  have hc: "(L ! c = [] \<and> h = 0) \<or> (L ! c \<noteq> [] \<and> h = hd (L ! c) \<and> h \<in> set (L ! c))"
    unfolding h_def by (rule hd1_cases)
  have h8: "8 dvd h" using hc nodes_okD [OF okc(2)] by auto
  have walh: "wal h" using hc nodes_okD [OF okc(2)] by (auto simp: wal_def)
  have walx: "wal x" "wal (x + 4)" using al8_wal x by simp_all
  have xn: "x \<notin> set (L ! c')" if "c' < 10" for c'
    using x(1) that unfolding nodes_def by blast
  have hx: "h \<noteq> x" using xn [OF c10] hc x(3) by auto
  have hx4: "h \<noteq> x + 4" using al8_neq [OF x(2) h8] by simp
  have rt: "roots s ! class_of (unat sz) = adr s h" using okc(3) c h_def by simp
  have W: "wd ?s' j = (if h \<noteq> 0 \<and> j = h then of_nat x
      else if j = x + 4 then of_nat h else if j = x then 0 else wd s j)" if "wal j" for j
    by (rule insert_list_wd [OF walx walh rt that])
  have Wx: "wd ?s' x = 0" using W [OF walx(1)] hx by simp
  have Wx4: "wd ?s' (x + 4) = of_nat h" using W [OF walx(2)] hx4 by simp
  have Wh: "wd ?s' h = of_nat x" if "h \<noteq> 0" using W [OF walh] that by simp
  have Wo: "wd ?s' j = wd s j" if "wal j" "j \<noteq> x" "j \<noteq> x + 4" "j \<noteq> h" for j
    using W [OF that(1)] that by simp
  have N: "8 dvd y \<and> 0 < y \<and> wal y \<and> wal (y + 4) \<and> y \<noteq> x" if "c' < 10" "y \<in> set (L ! c')" for y c'
    using nodes_okD [OF lists_okD(2) [OF ok that(1)] that(2)] xn [OF that(1)] that(2) by auto
  have Ny4: "wd ?s' (y + 4) = wd s (y + 4)" if "c' < 10" "y \<in> set (L ! c')" for y c'
  proof -
    note n = N [OF that]
    have "y + 4 \<noteq> x" "y + 4 \<noteq> h" using al8_neq n x(2) h8 by blast+
    then show ?thesis using Wo [of "y + 4"] n by simp
  qed
  have Ny: "wd ?s' y = wd s y" if "c' < 10" "y \<in> set (L ! c')" "y \<noteq> h" for y c'
  proof -
    note n = N [OF that(1,2)]
    have "y \<noteq> x + 4" using al8_neq [of x y] n x(2) by auto
    then show ?thesis using Wo [of y] n that(3) by simp
  qed
  have rts: "roots ?s' = (roots s)[c := adr s x]"
    by (simp add: insert_list_roots c)
  have adr': "adr ?s' j = adr s j" for j
    by (simp add: adr_def insert_list_frame)
  have dl_c: "dlseg ?s' 0 (x # L ! c) 0"
  proof -
    have "dlseg ?s' x (L ! c) 0"
    proof (rule dlseg_prev [OF okc(4)])
      show "\<forall>y\<in>set (L ! c). wd ?s' (y + 4) = wd s (y + 4)" using Ny4 [OF c10] by blast
      show "\<forall>y\<in>set (tl (L ! c)). wd ?s' y = wd s y"
      proof
        fix y assume y: "y \<in> set (tl (L ! c))"
        then have ne: "L ! c \<noteq> []" by auto
        then have "L ! c = h # tl (L ! c)" using hc by simp
        then have "distinct (h # tl (L ! c))" using okc(1) by simp
        then have "y \<noteq> h" using y by auto
        moreover have "y \<in> set (L ! c)" using y ne by (simp add: list.set_sel(2))
        ultimately show "wd ?s' y = wd s y" using Ny [OF c10] by simp
      qed
      show "L ! c \<noteq> [] \<longrightarrow> wd ?s' (hd (L ! c)) = of_nat x"
      proof
        assume "L ! c \<noteq> []"
        then have "h = hd (L ! c)" "h \<noteq> 0" using hc N [OF c10, of h] by auto
        then show "wd ?s' (hd (L ! c)) = of_nat x" using Wh by simp
      qed
    qed
    then show ?thesis using Wx Wx4 by (simp add: h_def)
  qed
  have dl_o: "dlseg ?s' 0 (L ! c') 0" if "c' < 10" "c' \<noteq> c" for c'
  proof -
    have "dlseg ?s' 0 (L ! c') 0 = dlseg s 0 (L ! c') 0"
    proof (rule dlseg_frame, rule ballI)
      fix y assume y: "y \<in> set (L ! c')"
      have "y \<notin> set (L ! c)" using lists_ok_disj [OF ok that(1) c10 that(2) y] .
      moreover have "0 < y" using N [OF that(1) y] by simp
      ultimately have "y \<noteq> h" using hc by auto
      then show "wd ?s' y = wd s y \<and> wd ?s' (y + 4) = wd s (y + 4)"
        using Ny [OF that(1) y] Ny4 [OF that(1) y] by simp
    qed
    then show ?thesis using lists_okD(4) [OF ok that(1)] by simp
  qed
  have len: "length L = 10" using okc(5) .
  have nth': "(L[c := x # L ! c]) ! c' = (if c' = c then x # L ! c else L ! c')" if "c' < 10" for c'
    using that len c10 by (simp add: nth_list_update)
  have per: "distinct ((L[c := x # L ! c]) ! c') \<and> nodes_ok ((L[c := x # L ! c]) ! c')
       \<and> roots ?s' ! c' = adr ?s' (hd1 ((L[c := x # L ! c]) ! c') 0)
       \<and> dlseg ?s' 0 ((L[c := x # L ! c]) ! c') 0" if c': "c' < 10" for c'
  proof (cases "c' = c")
    case True
    have "nodes_ok (x # L ! c)" using okc(2) x by (simp add: nodes_ok_def)
    then show ?thesis
      using True xn [OF c10] okc(1) dl_c c10 len by (simp add: rts adr')
  next
    case False
    then show ?thesis
      using lists_okD [OF ok c'] dl_o [OF c' False] c' len by (simp add: rts adr')
  qed
  have dis: "set ((L[c := x # L ! c]) ! c1) \<inter> set ((L[c := x # L ! c]) ! c2) = {}"
    if "c1 < 10" "c2 < 10" "c1 \<noteq> c2" for c1 c2
  proof -
    have "set (L ! c1) \<inter> set (L ! c2) = {}" using lists_ok_disj [OF ok that] by blast
    then show ?thesis using that xn [OF that(1)] xn [OF that(2)] by (auto simp: nth')
  qed
  show "lists_ok ?s' (L[c := x # L ! c])"
    unfolding lists_ok_def using per dis len by simp
  have S: "{x, x + 4} \<union> (if h \<noteq> 0 then {h} else {}) \<subseteq> links (x # take 1 (L ! c))"
    using hc by (cases "L ! c") (auto simp: links_def)
  show "upd (links (x # take 1 (L ! c))) s ?s'"
    using upd_mono [OF insert_list_upd [OF _ walh rt, of x] S] x(4) by simp
qed

lemma unat_of_nat_wal: "wal p \<Longrightarrow> unat (of_nat p :: uint) = p"
  by (simp add: wal_def unat_of_nat32)

lemma distinct_butlast_last: "distinct as \<Longrightarrow> y \<in> set (butlast as) \<Longrightarrow> y \<noteq> last as"
  by (metis append_butlast_last_id butlast.simps(1) distinct_append empty_iff empty_set
      disjoint_iff list.set_intros(1))

lemma remove_list_ok:
  assumes ok: "lists_ok s L" and x: "x \<in> set (L ! c)" and c: "c = class_of (unat sz)"
  shows "lists_ok (remove_list s (adr s x) sz) (L[c := remove1 x (L ! c)])"
    and "upd (links (remove1 x (L ! c))) s (remove_list s (adr s x) sz)"
proof -
  let ?s' = "remove_list s (adr s x) sz"
  have c10: "c < 10" using c class_of_less by simp
  note okc = lists_okD [OF ok c10]
  obtain as bs where sp: "L ! c = as @ x # bs" using x by (meson split_list)
  have dis: "distinct as" "distinct bs" "x \<notin> set as" "x \<notin> set bs" "set as \<inter> set bs = {}"
    using okc(1) unfolding sp by auto
  have rm: "remove1 x (L ! c) = as @ bs"
    using dis(3) by (simp add: sp remove1_append)
  define pv where "pv = last1 0 as"
  define nx where "nx = hd1 bs 0"
  have N: "8 dvd y \<and> 0 < y \<and> y + 4 < 2 ^ 32 \<and> wal y \<and> wal (y + 4)" if "y \<in> set (L ! c)" for y
    using nodes_okD [OF okc(2) that] .
  have inL: "set as \<subseteq> set (L ! c)" "set bs \<subseteq> set (L ! c)" unfolding sp by auto
  have pvc: "(as = [] \<and> pv = 0) \<or> (as \<noteq> [] \<and> pv = last as \<and> pv \<in> set as)"
    unfolding pv_def by (cases "as = []") (simp_all add: last1_in last1_last)
  have nxc: "(bs = [] \<and> nx = 0) \<or> (bs \<noteq> [] \<and> nx = hd bs \<and> nx \<in> set bs)"
    unfolding nx_def using hd1_cases [of bs] by simp
  have pv8: "8 dvd pv" "pv + 4 < 2 ^ 32" "wal pv" "wal (pv + 4)"
    using pvc N inL(1) by (auto simp: wal_def)
  have nx8: "8 dvd nx" "nx + 4 < 2 ^ 32" "wal nx"
    using nxc N inL(2) by (auto simp: wal_def)
  have d: "dlseg s 0 as x" "wd s x = of_nat pv" "wd s (x + 4) = of_nat nx" "dlseg s x bs 0"
    using okc(4) unfolding sp by (simp_all add: dlseg_append pv_def nx_def)
  have upv: "unat (wd s x) = pv" using d(2) pv8(3) by (simp add: unat_of_nat_wal)
  have unx: "unat (wd s (x + 4)) = nx" using d(3) nx8(3) by (simp add: unat_of_nat_wal)
  have wx: "wal x" "wal (x + 4)" using N [OF x] by simp_all
  have W: "wd ?s' j = (if nx \<noteq> 0 \<and> j = nx then of_nat pv
      else if pv \<noteq> 0 \<and> j = pv + 4 then of_nat nx else wd s j)" if "wal j" for j
    by (rule remove_list_wd [OF wx upv pv8(3,4) unx nx8(3) that])
  have Wo: "wd ?s' j = wd s j" if "wal j" "j \<noteq> nx" "j \<noteq> pv + 4" for j
    using W [OF that(1)] that by simp
  have Wy: "wd ?s' y = wd s y" if "8 dvd y" "wal y" "y \<noteq> nx" for y
    using Wo [OF that(2,3)] al8_neq [OF pv8(1) that(1)] by auto
  have Wy4: "wd ?s' (y + 4) = wd s (y + 4)" if "8 dvd y" "wal (y + 4)" "y \<noteq> pv" for y
    using Wo [OF that(2)] al8_neq [OF that(1) nx8(1)] that(3) by auto
  have d1: "dlseg ?s' 0 as nx"
  proof (rule dlseg_next [OF d(1)])
    show "\<forall>y\<in>set as. wd ?s' y = wd s y"
    proof
      fix y assume y: "y \<in> set as"
      then have "y \<noteq> nx" using nxc dis(5) N [of y] inL(1) by auto
      then show "wd ?s' y = wd s y" using Wy N [of y] y inL(1) by auto
    qed
    show "\<forall>y\<in>set (butlast as). wd ?s' (y + 4) = wd s (y + 4)"
    proof
      fix y assume y: "y \<in> set (butlast as)"
      then have ya: "y \<in> set as" by (rule in_set_butlastD)
      have "y \<noteq> last as" using distinct_butlast_last [OF dis(1) y] .
      moreover have "as \<noteq> []" using ya by auto
      ultimately have "y \<noteq> pv" using pvc by simp
      then show "wd ?s' (y + 4) = wd s (y + 4)" using Wy4 N [of y] ya inL(1) by auto
    qed
    show "as \<noteq> [] \<longrightarrow> wd ?s' (last as + 4) = of_nat nx"
    proof
      assume "as \<noteq> []"
      then have p: "pv = last as" "pv \<in> set as" using pvc by simp_all
      then have "pv \<noteq> 0" using N [of pv] inL(1) by auto
      moreover have "pv + 4 \<noteq> nx" using al8_neq [OF pv8(1) nx8(1)] .
      ultimately show "wd ?s' (last as + 4) = of_nat nx"
        using W [OF pv8(4)] p(1) by simp
    qed
  qed
  have d2: "dlseg ?s' pv bs 0"
  proof (rule dlseg_prev [OF d(4)])
    show "\<forall>y\<in>set bs. wd ?s' (y + 4) = wd s (y + 4)"
    proof
      fix y assume y: "y \<in> set bs"
      then have "y \<noteq> pv" using pvc dis(5) N [of y] inL(2) by auto
      then show "wd ?s' (y + 4) = wd s (y + 4)" using Wy4 N [of y] y inL(2) by auto
    qed
    show "\<forall>y\<in>set (tl bs). wd ?s' y = wd s y"
    proof
      fix y assume y: "y \<in> set (tl bs)"
      then have ne: "bs \<noteq> []" by auto
      then have "bs = nx # tl bs" using nxc by simp
      then have "distinct (nx # tl bs)" using dis(2) by simp
      then have "y \<noteq> nx" using y by auto
      moreover have "y \<in> set bs" using y ne by (simp add: list.set_sel(2))
      ultimately show "wd ?s' y = wd s y" using Wy N [of y] inL(2) by auto
    qed
    show "bs \<noteq> [] \<longrightarrow> wd ?s' (hd bs) = of_nat pv"
    proof
      assume "bs \<noteq> []"
      then have n: "nx = hd bs" "nx \<in> set bs" using nxc by simp_all
      then have "nx \<noteq> 0" using N [of nx] inL(2) by auto
      then show "wd ?s' (hd bs) = of_nat pv" using W [OF nx8(3)] n(1) by simp
    qed
  qed
  have dl_c: "dlseg ?s' 0 (as @ bs) 0"
    using d1 d2 by (simp add: dlseg_append pv_def nx_def)
  have S: "(if pv \<noteq> 0 then {pv + 4} else {}) \<union> (if nx \<noteq> 0 then {nx} else {}) \<subseteq> links (as @ bs)"
    using pvc nxc by (auto simp: links_def)
  have u0: "upd ((if pv \<noteq> 0 then {pv + 4} else {}) \<union> (if nx \<noteq> 0 then {nx} else {})) s ?s'"
    by (rule remove_list_upd [OF upv pv8(3,4) unx nx8(3)])
  have u: "upd (links (as @ bs)) s ?s'" by (rule upd_mono [OF u0 S])
  then show "upd (links (remove1 x (L ! c))) s ?s'" by (simp add: rm)
  have nab: "nodes_ok (as @ bs)" using okc(2) unfolding sp by (simp add: nodes_ok_def)
  have dl_o: "dlseg ?s' 0 (L ! c') 0" if "c' < 10" "c' \<noteq> c" for c'
  proof -
    have "set (as @ bs) \<inter> set (L ! c') = {}"
      using lists_ok_disj [OF ok c10 that(1)] that(2) inL by auto
    then have "links (L ! c') \<inter> links (as @ bs) = {}"
      using links_disj [OF lists_okD(2) [OF ok that(1)] nab] by blast
    then have "dlseg ?s' 0 (L ! c') 0 = dlseg s 0 (L ! c') 0"
      by (intro dlseg_upd [OF u links_wal [OF nab] lists_okD(2) [OF ok that(1)]])
    then show ?thesis using lists_okD(4) [OF ok that(1)] by simp
  qed
  have adr': "adr ?s' j = adr s j" for j
    by (simp add: adr_def remove_list_frame)
  have gn: "GET_NEXT s (adr s x) = adr s nx"
    by (simp add: GET_NEXT_adr unx)
  have rt: "roots ?s' = (roots s)[c := adr s (hd1 (as @ bs) 0)]"
  proof (cases as)
    case Nil
    then show ?thesis
      using okc(3) by (simp add: remove_list_roots c [symmetric] sp gn nx_def)
  next
    case (Cons a as')
    then have "a \<in> set (L ! c)" "a \<noteq> x" using inL(1) dis(3) by auto
    then have "adr s x \<noteq> adr s a" using adr_inj [of x a s] N [of a] N [OF x] by auto
    then show ?thesis
      using okc(3) Cons
      by (simp add: remove_list_roots c [symmetric] sp list_update_same_conv okc(5))
  qed
  have len: "length L = 10" by (rule okc(5))
  have per: "distinct ((L[c := as @ bs]) ! c') \<and> nodes_ok ((L[c := as @ bs]) ! c')
       \<and> roots ?s' ! c' = adr ?s' (hd1 ((L[c := as @ bs]) ! c') 0)
       \<and> dlseg ?s' 0 ((L[c := as @ bs]) ! c') 0" if c': "c' < 10" for c'
  proof (cases "c' = c")
    case True
    then show ?thesis
      using dis nab dl_c c10 len by (simp add: rt adr')
  next
    case False
    then show ?thesis
      using lists_okD [OF ok c'] dl_o [OF c' False] c' len by (simp add: rt adr')
  qed
  have dj: "set ((L[c := as @ bs]) ! c1) \<inter> set ((L[c := as @ bs]) ! c2) = {}"
    if "c1 < 10" "c2 < 10" "c1 \<noteq> c2" for c1 c2
  proof -
    have a: "set (L ! c1) \<inter> set (L ! c2) = {}" using lists_ok_disj [OF ok that] by blast
    have b: "set ((L[c := as @ bs]) ! c') \<subseteq> set (L ! c')" if "c' < 10" for c'
      using that len inL by (cases "c' = c") (auto simp: nth_list_update)
    show ?thesis using a b [OF that(1)] b [OF that(2)] by blast
  qed
  show "lists_ok ?s' (L[c := remove1 x (L ! c)])"
    unfolding lists_ok_def rm using per dj len by simp
qed

section \<open>The block chain\<close>

lemma total_simps [simp]:
  "total [] = 0" "total (b # bs) = fst b + total bs" "total (xs @ ys) = total xs + total ys"
  by (simp_all add: total_def)

lemma seg_append: "seg s k (xs @ ys) \<longleftrightarrow> seg s k xs \<and> seg s (k + total xs) ys"
  by (induction xs arbitrary: k) (auto simp: add.assoc)

lemma hf_append: "hf k (xs @ ys) = hf k xs \<union> hf (k + total xs) ys"
  by (induction xs arbitrary: k) (auto simp: add.assoc)

lemma free_at_append: "free_at k (xs @ ys) = free_at k xs @ free_at (k + total xs) ys"
  by (induction xs arbitrary: k) (auto simp: add.assoc)

lemma live_at_append: "live_at k (xs @ ys) = live_at k xs @ live_at (k + total xs) ys"
  by (induction xs arbitrary: k) (auto simp: add.assoc)

lemma sizes_ok_simps [simp]:
  "sizes_ok []" "sizes_ok (b # bs) \<longleftrightarrow> 16 \<le> fst b \<and> 8 dvd fst b \<and> sizes_ok bs"
  "sizes_ok (xs @ ys) \<longleftrightarrow> sizes_ok xs \<and> sizes_ok ys"
  by (auto simp: sizes_ok_def)

lemma szs_simps [simp]:
  "szs []"
  "szs (b # bs) \<longleftrightarrow> 8 dvd fst b \<and> (16 \<le> fst b \<or> fst b = 0 \<and> fst (snd b)) \<and> szs bs"
  "szs (xs @ ys) \<longleftrightarrow> szs xs \<and> szs ys"
  by (auto simp: szs_def)

lemma sizes_ok_szs: "sizes_ok bs \<Longrightarrow> szs bs"
  by (auto simp: sizes_ok_def szs_def)

lemma chain_ok_szs: "chain_ok bs \<Longrightarrow> szs bs"
  by (induction bs rule: chain_ok.induct) simp_all

lemma chain_ok_append: "ys \<noteq> [] \<Longrightarrow> chain_ok (xs @ ys) \<longleftrightarrow> sizes_ok xs \<and> chain_ok ys"
proof (induction xs)
  case Nil
  then show ?case by simp
next
  case (Cons x xs)
  obtain sz al pa where x: "x = (sz, al, pa)" by (cases x)
  obtain z zs where z: "xs @ ys = z # zs" using Cons.prems by (cases "xs @ ys") simp_all
  have "chain_ok (x # xs @ ys) \<longleftrightarrow> 16 \<le> sz \<and> 8 dvd sz \<and> chain_ok (xs @ ys)"
    unfolding x z by simp
  with Cons show ?case by (auto simp: x)
qed

lemma chain_ok_Cons: "bs \<noteq> [] \<Longrightarrow> chain_ok (b # bs) \<longleftrightarrow> 16 \<le> fst b \<and> 8 dvd fst b \<and> chain_ok bs"
  using chain_ok_append [of bs "[b]"] by simp

lemma chain_ok_ne: "chain_ok bs \<Longrightarrow> bs \<noteq> []"
  by auto

lemma hf_range:
  "szs bs \<Longrightarrow> j \<in> hf k bs \<Longrightarrow> 4 \<le> k \<Longrightarrow> k \<le> j + 4 \<and> j + 4 \<le> k + total bs"
proof (induction bs arbitrary: k)
  case Nil
  then show ?case by simp
next
  case (Cons b bs)
  obtain sz al pa where b: "b = (sz, al, pa)" by (cases b)
  from Cons.prems(2) consider "j = k - 4" | "\<not> al" "j = k + sz - 8" | "j \<in> hf (k + sz) bs"
    unfolding b by (auto split: if_splits)
  then show ?case
  proof cases
    case 1
    then show ?thesis using Cons.prems(3) by simp
  next
    case 2
    then show ?thesis using Cons.prems(1,3) by (auto simp: b)
  next
    case 3
    have "szs bs" "4 \<le> k + sz" using Cons.prems by simp_all
    from Cons.IH [OF this(1) 3 this(2)] show ?thesis by (simp add: b)
  qed
qed

lemma hf_range_strict:
  "sizes_ok bs \<Longrightarrow> j \<in> hf k bs \<Longrightarrow> 4 \<le> k \<Longrightarrow> k \<le> j + 4 \<and> j + 8 \<le> k + total bs"
proof (induction bs arbitrary: k)
  case Nil
  then show ?case by simp
next
  case (Cons b bs)
  obtain sz al pa where b: "b = (sz, al, pa)" by (cases b)
  from Cons.prems(2) consider "j = k - 4" | "\<not> al" "j = k + sz - 8" | "j \<in> hf (k + sz) bs"
    unfolding b by (auto split: if_splits)
  then show ?case
  proof cases
    case 1
    then show ?thesis using Cons.prems(1,3) by (simp add: b)
  next
    case 2
    then show ?thesis using Cons.prems(1,3) by (auto simp: b)
  next
    case 3
    have "sizes_ok bs" "4 \<le> k + sz" using Cons.prems by simp_all
    from Cons.IH [OF this(1) 3 this(2)] show ?thesis by (simp add: b)
  qed
qed

lemma hf_dvd: "szs bs \<Longrightarrow> j \<in> hf k bs \<Longrightarrow> 4 dvd k \<Longrightarrow> 4 \<le> k \<Longrightarrow> 4 dvd j"
proof (induction bs arbitrary: k)
  case Nil
  then show ?case by simp
next
  case (Cons b bs)
  obtain sz al pa where b: "b = (sz, al, pa)" by (cases b)
  have sz8: "8 dvd sz" and sz16: "al \<or> 16 \<le> sz" using Cons.prems(1) by (auto simp: b)
  from Cons.prems(2) consider "j = k - 4" | "\<not> al" "j = k + sz - 8" | "j \<in> hf (k + sz) bs"
    unfolding b by (auto split: if_splits)
  then show ?case
  proof cases
    case 1
    then show ?thesis using Cons.prems(3,4) by presburger
  next
    case 2
    then have "16 \<le> sz" using sz16 by simp
    then show ?thesis using 2 sz8 Cons.prems(3,4) by presburger
  next
    case 3
    have "4 dvd k + sz" using Cons.prems(3) sz8 by presburger
    moreover have "szs bs" "4 \<le> k + sz" using Cons.prems by (simp_all add: b)
    ultimately show ?thesis using Cons.IH [OF _ 3] by blast
  qed
qed

lemma hf_wal:
  assumes "szs bs" "4 dvd k" "4 \<le> k" "k + total bs < 2 ^ 32" "j \<in> hf k bs"
  shows "wal j"
  using hf_dvd [OF assms(1,5,2,3)] hf_range [OF assms(1,5,3)] assms(4) by (simp add: wal_def)

lemma seg_frame: "\<forall>j \<in> hf k bs. wd s' j = wd s j \<Longrightarrow> seg s' k bs = seg s k bs"
  by (induction bs arbitrary: k) auto

lemma seg_upd:
  assumes u: "upd S s s'" and S: "\<forall>k \<in> S. wal k" and b: "szs bs" "4 dvd k" "4 \<le> k"
    "k + total bs < 2 ^ 32" and d: "hf k bs \<inter> S = {}"
  shows "seg s' k bs = seg s k bs"
proof (rule seg_frame, rule ballI)
  fix j assume j: "j \<in> hf k bs"
  then have "j \<notin> S" using d by blast
  then show "wd s' j = wd s j" using upd_wd [OF u S hf_wal [OF b j]] by simp
qed

lemma free_at_range:
  "szs bs \<Longrightarrow> (x, sz) \<in> set (free_at k bs) \<Longrightarrow>
   k \<le> x \<and> x + sz \<le> k + total bs \<and> 16 \<le> sz \<and> 8 dvd sz \<and> (8 dvd k \<longrightarrow> 8 dvd x)"
proof (induction bs arbitrary: k)
  case Nil
  then show ?case by simp
next
  case (Cons b bs)
  obtain sz0 al pa where b: "b = (sz0, al, pa)" by (cases b)
  from Cons.prems(2) consider "\<not> al" "x = k" "sz = sz0" | "(x, sz) \<in> set (free_at (k + sz0) bs)"
    unfolding b by (auto split: if_splits)
  then show ?case
  proof cases
    case 1
    then show ?thesis using Cons.prems(1) by (auto simp: b)
  next
    case 2
    have s: "szs bs" "8 dvd sz0" using Cons.prems(1) by (simp_all add: b)
    from Cons.IH [OF s(1) 2] s(2) show ?thesis by (auto simp: b)
  qed
qed

lemma free_not_hf:
  "szs bs \<Longrightarrow> (x, sz) \<in> set (free_at k bs) \<Longrightarrow> 4 \<le> k \<Longrightarrow> x \<notin> hf k bs \<and> x + 4 \<notin> hf k bs"
proof (induction bs arbitrary: k)
  case Nil
  then show ?case by simp
next
  case (Cons b bs)
  obtain sz0 al pa where b: "b = (sz0, al, pa)" by (cases b)
  have s: "szs bs" "8 dvd sz0" "al \<or> 16 \<le> sz0" using Cons.prems(1) by (auto simp: b)
  have k': "4 \<le> k + sz0" using Cons.prems(3) by simp
  have r: "k + sz0 \<le> j + 4" if "j \<in> hf (k + sz0) bs" for j
    using hf_range [OF s(1) that k'] by simp
  from Cons.prems(2) consider "\<not> al" "x = k" "sz = sz0" | "(x, sz) \<in> set (free_at (k + sz0) bs)"
    unfolding b by (auto split: if_splits)
  then show ?case
  proof cases
    case 1
    then have "16 \<le> sz0" using s(3) by simp
    then show ?thesis using 1 r [of k] r [of "k + 4"] Cons.prems(3) by (auto simp: b)
  next
    case 2
    have x: "k + sz0 \<le> x" using free_at_range [OF s(1) 2] by simp
    from Cons.IH [OF s(1) 2 k'] x Cons.prems(3) s(3) show ?thesis by (auto simp: b)
  qed
qed

section \<open>Buckets and chain together\<close>

lemma listed_remove:
  assumes l: "listed F L" and len: "length L = 10" and d: "distinct (L ! class_of sz)"
    and x: "(x, sz) \<in> F" and f: "\<forall>sz'. (x, sz') \<in> F \<longrightarrow> sz' = sz"
  shows "listed (F - {(x, sz)}) (L[class_of sz := remove1 x (L ! class_of sz)])"
  unfolding listed_def
proof (intro allI impI)
  fix c :: nat assume c: "c < 10"
  have e: "set (L ! c) = {y. \<exists>sz'. (y, sz') \<in> F \<and> class_of sz' = c}"
    using l c by (simp add: listed_def)
  show "set ((L[class_of sz := remove1 x (L ! class_of sz)]) ! c)
      = {y. \<exists>sz'. (y, sz') \<in> F - {(x, sz)} \<and> class_of sz' = c}"
  proof (cases "c = class_of sz")
    case True
    have "set (remove1 x (L ! c)) = set (L ! c) - {x}"
      using d True by simp
    also have "\<dots> = {y. \<exists>sz'. (y, sz') \<in> F - {(x, sz)} \<and> class_of sz' = c}"
      unfolding e using f by auto
    finally show ?thesis using True c len by simp
  next
    case False
    have "{y. \<exists>sz'. (y, sz') \<in> F - {(x, sz)} \<and> class_of sz' = c}
        = {y. \<exists>sz'. (y, sz') \<in> F \<and> class_of sz' = c}"
      using False by auto
    then show ?thesis using False e by simp
  qed
qed

lemma listed_insert:
  assumes l: "listed F L" and len: "length L = 10"
  shows "listed (insert (x, sz) F) (L[class_of sz := x # L ! class_of sz])"
  unfolding listed_def
proof (intro allI impI)
  fix c :: nat assume c: "c < 10"
  have e: "set (L ! c) = {y. \<exists>sz'. (y, sz') \<in> F \<and> class_of sz' = c}"
    using l c by (simp add: listed_def)
  show "set ((L[class_of sz := x # L ! class_of sz]) ! c)
      = {y. \<exists>sz'. (y, sz') \<in> insert (x, sz) F \<and> class_of sz' = c}"
  proof (cases "c = class_of sz")
    case True
    have "set (x # L ! c) = {y. \<exists>sz'. (y, sz') \<in> insert (x, sz) F \<and> class_of sz' = c}"
      using e True by auto
    then show ?thesis using True c len by simp
  next
    case False
    have "{y. \<exists>sz'. (y, sz') \<in> insert (x, sz) F \<and> class_of sz' = c}
        = {y. \<exists>sz'. (y, sz') \<in> F \<and> class_of sz' = c}"
      using False by auto
    then show ?thesis using False e by simp
  qed
qed

lemma listed_nodes: "listed F L \<Longrightarrow> nodes L = fst ` F"
proof -
  assume l: "listed F L"
  have "x \<in> nodes L \<longleftrightarrow> x \<in> fst ` F" for x
  proof
    assume "x \<in> nodes L"
    then obtain c where "c < 10" "x \<in> set (L ! c)" by (auto simp: nodes_def)
    then obtain sz where "(x, sz) \<in> F" using l by (auto simp: listed_def)
    then show "x \<in> fst ` F" by force
  next
    assume "x \<in> fst ` F"
    then obtain sz where s: "(x, sz) \<in> F" by auto
    have "class_of sz < 10" by (rule class_of_less)
    moreover have "x \<in> set (L ! class_of sz)" using l s class_of_less by (auto simp: listed_def)
    ultimately show "x \<in> nodes L" unfolding nodes_def by blast
  qed
  then show ?thesis by blast
qed

lemma listed_in: "listed F L \<Longrightarrow> (x, sz) \<in> F \<Longrightarrow> x \<in> set (L ! class_of sz)"
  using class_of_less by (auto simp: listed_def)

lemma listed_cong: "listed F L \<Longrightarrow> F = F' \<Longrightarrow> listed F' L"
  by simp

lemma free_at_fun:
  "szs bs \<Longrightarrow> (x, a) \<in> set (free_at k bs) \<Longrightarrow> (x, b) \<in> set (free_at k bs) \<Longrightarrow> a = b"
proof (induction bs arbitrary: k)
  case Nil
  then show ?case by simp
next
  case (Cons c bs)
  obtain sz0 al pa where c: "c = (sz0, al, pa)" by (cases c)
  have s: "szs bs" "al \<or> 16 \<le> sz0" using Cons.prems(1) by (auto simp: c)
  have r: "k + sz0 \<le> x" if "(x, z) \<in> set (free_at (k + sz0) bs)" for z
    using free_at_range [OF s(1) that] by simp
  from Cons.prems(2) consider "\<not> al" "x = k" "a = sz0" | "(x, a) \<in> set (free_at (k + sz0) bs)"
    unfolding c by (auto split: if_splits)
  then show ?case
  proof cases
    case 1
    then have "16 \<le> sz0" using s(2) by simp
    then show ?thesis using 1 Cons.prems(3) r [of b] by (auto simp: c split: if_splits)
  next
    case 2
    from Cons.prems(3) consider "\<not> al" "x = k" "b = sz0" | "(x, b) \<in> set (free_at (k + sz0) bs)"
      unfolding c by (auto split: if_splits)
    then show ?thesis
    proof cases
      case 1
      then have "16 \<le> sz0" using s(2) by simp
      then show ?thesis using 1 r [OF 2] by simp
    next
      case 22: 2
      show ?thesis by (rule Cons.IH [OF s(1) 2 22])
    qed
  qed
qed

lemma nodes_not_hf:
  assumes s: "szs B" and l: "listed (set (free_at 8 B) - X) L" and c: "c < 10"
  shows "links (L ! c) \<inter> hf 8 B = {}"
proof -
  have "j \<notin> hf 8 B" if j: "j \<in> links (L ! c)" for j
  proof -
    obtain x where x: "x \<in> set (L ! c)" "j = x \<or> j = x + 4" using j by (auto simp: links_def)
    then obtain sz where "(x, sz) \<in> set (free_at 8 B)" using l c by (auto simp: listed_def)
    from free_not_hf [OF s this] x(2) show ?thesis by auto
  qed
  then show ?thesis by blast
qed

lemma lists_ok_upd:
  assumes ok: "lists_ok s L" and u: "upd S s s'" and r: "roots s' = roots s"
    and S: "\<forall>k \<in> S. wal k" and d: "\<forall>c < 10. links (L ! c) \<inter> S = {}"
  shows "lists_ok s' L"
proof -
  have "dlseg s' 0 (L ! c) 0 = dlseg s 0 (L ! c) 0" if "c < 10" for c
    using dlseg_upd [OF u S lists_okD(2) [OF ok that]] d that by blast
  moreover have "adr s' j = adr s j" for j by (rule upd_frame(4) [OF u])
  ultimately show ?thesis using ok unfolding lists_ok_def r by simp
qed

lemma free_at_mid:
  assumes s: "szs (pre @ (sz, al, pa) # post)"
    and x: "(x, z) \<in> set (free_at k (pre @ (sz, al, pa) # post))"
  shows "x + z \<le> k + total pre \<or> (x = k + total pre \<and> z = sz \<and> \<not> al)
          \<or> k + total pre + sz \<le> x"
proof -
  from x consider "(x, z) \<in> set (free_at k pre)" | "\<not> al" "x = k + total pre" "z = sz"
    | "(x, z) \<in> set (free_at (k + total pre + sz) post)"
    by (auto simp: free_at_append split: if_splits)
  then show ?thesis
  proof cases
    case 1
    have "szs pre" using s by simp
    from free_at_range [OF this 1] show ?thesis by simp
  next
    case 2
    then show ?thesis by simp
  next
    case 3
    have "szs post" using s by simp
    from free_at_range [OF this 3] show ?thesis by simp
  qed
qed

section \<open>Header words\<close>

lemma ucast_up_of_nat: "n < 2 ^ 32 \<Longrightarrow> (ucast (of_nat n :: uint) :: size_t) = of_nat n"
proof -
  assume n: "n < 2 ^ 32"
  have "unat (ucast (of_nat n :: uint) :: size_t) = unat (of_nat n :: size_t)"
    using n by (simp add: unat_ucast_up unat_of_nat32 unat_of_nat)
  then show ?thesis by (rule word_unat_eq_iff [THEN iffD2])
qed

lemma unat_of_nat64: "n < 2 ^ 32 \<Longrightarrow> unat (of_nat n :: size_t) = n"
  by (simp add: unat_of_nat)

lemma of_nat_le64: "a < 2 ^ 32 \<Longrightarrow> b < 2 ^ 32 \<Longrightarrow> (of_nat a :: size_t) \<le> of_nat b \<longleftrightarrow> a \<le> b"
  by (simp add: word_le_nat_alt unat_of_nat)

lemma ucast_or: "(ucast (a OR b :: size_t) :: uint) = ucast a OR ucast b"
  by (rule bit_word_eqI) (auto simp add: bit_ucast_iff bit_or_iff)

lemma hdr_alt:
  "hdr sz al pa = of_nat sz OR (if al then (if pa then 3 else 1) else (if pa then 2 else 0))"
  by (simp add: hdr_def or.assoc)

lemma pack_alloc:
  "(ucast (PACK (of_nat sz) (ucast (1 + (if pa then 2 else 0 :: uint)))) :: uint) = hdr sz True pa"
  by (simp add: PACK_def hdr_alt ucast_or ucast_down_of_nat)

lemma pack_free:
  "(ucast (PACK (of_nat sz) (ucast (if pa then 2 else 0 :: uint))) :: uint) = hdr sz False pa"
  by (simp add: PACK_def hdr_alt ucast_or ucast_down_of_nat)

lemma pack_2: "(ucast (PACK (of_nat sz) 2) :: uint) = hdr sz False True"
  by (simp add: PACK_def hdr_alt ucast_or ucast_down_of_nat)

lemma pack_0: "(ucast (PACK (of_nat sz) 0) :: uint) = of_nat sz"
  by (simp add: PACK_def ucast_or ucast_down_of_nat)

lemma pack_free':
  "(ucast (PACK (of_nat sz) 0 OR ucast (if pa then 2 else 0 :: uint)) :: uint) = hdr sz False pa"
  by (simp add: PACK_def hdr_alt ucast_or ucast_down_of_nat)

lemma pack_epi: "(ucast (PACK 0 1) :: uint) = hdr 0 True False"
  by (simp add: PACK_def hdr_alt)

lemma wd_GET: "GET s (adr s j) = wd s j"
  by (simp add: wd_def)

lemma hdr_set_pa: "8 dvd sz \<Longrightarrow> hdr sz al pa OR 2 = hdr sz al True"
  by (rule hdr_set)

section \<open>Unlinking and linking a block of the chain\<close>

lemma heap_okD:
  assumes "heap_ok s B L X"
  shows "chain_ok B" "seg s 8 B" "mem_brk s = adr s (8 + total B)" "8 + total B < 2 ^ 32"
    "lists_ok s L" "listed (set (free_at 8 B) - X) L" "szs B"
  using assms chain_ok_szs by (simp_all add: heap_ok_def)

lemma chain_split:
  assumes "chain_ok (pre @ (sz, False, pa) # post)"
  shows "sizes_ok pre" "16 \<le> sz" "8 dvd sz" "chain_ok post" "post \<noteq> []"
proof -
  show ne: "post \<noteq> []"
  proof
    assume "post = []"
    with assms have "chain_ok (pre @ [(sz, False, pa)])" by simp
    then show False using chain_ok_append [of "[(sz, False, pa)]" pre] by simp
  qed
  have "sizes_ok pre \<and> chain_ok ((sz, False, pa) # post)"
    using assms chain_ok_append [of "(sz, False, pa) # post" pre] by simp
  then show "sizes_ok pre" "16 \<le> sz" "8 dvd sz" "chain_ok post"
    using chain_ok_Cons [OF ne, of "(sz, False, pa)"] by simp_all
qed

lemma total_8: "szs bs \<Longrightarrow> 8 dvd total bs"
  by (induction bs) auto

lemma nlinks_class: "c < 10 \<Longrightarrow> links (L ! c) \<subseteq> nlinks L"
  unfolding links_def nlinks_def nodes_def by blast

lemma links_remove1: "links (remove1 x xs) \<subseteq> links xs"
  by (rule links_mono) (rule set_remove1_subset)

lemma remove_block:
  assumes ok: "heap_ok s B L X" and B: "B = pre @ (sz, False, pa) # post"
    and k: "k = 8 + total pre" and nx: "(k, sz) \<notin> X"
  shows "heap_ok (remove_list s (adr s k) (of_nat sz)) B
           (L[class_of sz := remove1 k (L ! class_of sz)]) (insert (k, sz) X)"
    and "upd (nlinks L) s (remove_list s (adr s k) (of_nat sz))"
    and "roots (remove_list s (adr s k) (of_nat sz)) ! c' =
           (if c' = class_of sz then adr s (hd1 (remove1 k (L ! class_of sz)) 0) else roots s ! c')"
proof -
  let ?c = "class_of sz"
  let ?s1 = "remove_list s (adr s k) (of_nat sz)"
  let ?L1 = "L[?c := remove1 k (L ! ?c)]"
  note h = heap_okD [OF ok]
  have sb: "sz < 2 ^ 32" using h(4) by (simp add: B)
  have c: "?c = class_of (unat (of_nat sz :: size_t))" using sb by (simp add: unat_of_nat64)
  have c10: "?c < 10" by (rule class_of_less)
  have fr: "(k, sz) \<in> set (free_at 8 B)" by (simp add: B free_at_append k)
  then have kin: "k \<in> set (L ! ?c)" using listed_in [OF h(6)] nx by simp
  note r = remove_list_ok [OF h(5) kin c]
  have sub: "links (remove1 k (L ! ?c)) \<subseteq> links (L ! ?c)" by (rule links_remove1)
  have len: "length L = 10" using lists_okD(5) [OF h(5) c10] .
  have n1: "nodes_ok (remove1 k (L ! ?c))"
    using lists_okD(2) [OF r(1) c10] len c10 by simp
  have "seg ?s1 8 B = seg s 8 B"
  proof (rule seg_upd [OF r(2) links_wal [OF n1] h(7)])
    show "8 + total B < 2 ^ 32" by (rule h(4))
    show "hf 8 B \<inter> links (remove1 k (L ! ?c)) = {}"
      using nodes_not_hf [OF h(7) h(6) c10] sub by blast
  qed simp_all
  then have sg: "seg ?s1 8 B" using h(2) by simp
  have f: "\<forall>sz'. (k, sz') \<in> set (free_at 8 B) - X \<longrightarrow> sz' = sz"
    using free_at_fun [OF h(7) _ fr] by blast
  have "listed (set (free_at 8 B) - X - {(k, sz)}) ?L1"
    using listed_remove [OF h(6) len lists_okD(1) [OF h(5) c10] _ f] fr nx by simp
  then have li: "listed (set (free_at 8 B) - insert (k, sz) X) ?L1"
    by (rule listed_cong) blast
  show "heap_ok ?s1 B ?L1 (insert (k, sz) X)"
    unfolding heap_ok_def using h(1,3,4) sg r(1) li
    by (simp add: remove_list_frame adr_def)
  show "upd (nlinks L) s ?s1"
    using upd_mono [OF r(2)] sub nlinks_class [OF c10, of L] by blast
  show "roots ?s1 ! c' = (if c' = ?c then adr s (hd1 (remove1 k (L ! ?c)) 0) else roots s ! c')"
  proof (cases "c' < 10")
    case True
    have "roots ?s1 ! c' = adr ?s1 (hd1 (?L1 ! c') 0)" using lists_okD(3) [OF r(1) True] .
    then show ?thesis
      using True len lists_okD(3) [OF h(5) True]
      by (simp add: adr_def remove_list_frame nth_list_update)
  next
    case False
    then have "c' \<noteq> ?c" using c10 by auto
    then show ?thesis by (simp add: remove_list_roots c [symmetric])
  qed
qed

section \<open>Placement\<close>

lemma nodes_ok_mono: "set xs \<subseteq> set ys \<Longrightarrow> nodes_ok ys \<Longrightarrow> nodes_ok xs"
  unfolding nodes_ok_def by blast

lemma free_at_set_pa [simp]: "free_at k (set_pa p bs) = free_at k bs"
  by (cases bs) auto

lemma total_set_pa [simp]: "total (set_pa p bs) = total bs"
  by (cases bs) auto

lemma nlinks_remove: "nlinks (L[c := remove1 x (L ! c)]) \<subseteq> nlinks L"
proof -
  have "nodes (L[c := remove1 x (L ! c)]) \<subseteq> nodes L"
  proof
    fix y assume "y \<in> nodes (L[c := remove1 x (L ! c)])"
    then obtain c' where c': "c' < 10" "y \<in> set ((L[c := remove1 x (L ! c)]) ! c')"
      by (auto simp: nodes_def)
    have "y \<in> set (L ! c')"
    proof (cases "c < length L")
      case True
      then show ?thesis
        using c'(2) set_remove1_subset [of x "L ! c"] by (cases "c' = c") auto
    next
      case False
      then show ?thesis using c'(2) by (simp add: list_update_beyond)
    qed
    then show "y \<in> nodes L" using c'(1) by (auto simp: nodes_def)
  qed
  then show ?thesis unfolding nlinks_def by blast
qed

lemma place_split:
  assumes ok: "heap_ok s (pre @ (csz, False, pa) # post) L {}"
    and k: "k = 8 + total pre"
    and a: "16 \<le> asz" "8 dvd asz" "asz + 16 \<le> csz"
  defines "L1 \<equiv> L[class_of csz := remove1 k (L ! class_of csz)]"
  shows "heap_ok (place s (adr s k) (of_nat asz))
           (pre @ (asz, True, pa) # (csz - asz, False, True) # post)
           (L1[class_of (csz - asz) := (k + asz) # L1 ! class_of (csz - asz)]) {}"
    and "upd (nlinks L \<union> {j. k - 4 \<le> j \<and> j \<le> k + csz - 4}) s (place s (adr s k) (of_nat asz))"
proof -
  let ?B = "pre @ (csz, False, pa) # post"
  let ?B' = "pre @ (asz, True, pa) # (csz - asz, False, True) # post"
  let ?c = "class_of (csz - asz)"
  let ?L3 = "L1[?c := (k + asz) # L1 ! ?c]"
  let ?bp = "adr s k"
  let ?x = "k + asz"
  note h = heap_okD [OF ok]
  note cs = chain_split [OF h(1)]
  have k8: "8 dvd k" "8 \<le> k" using total_8 [OF sizes_ok_szs [OF cs(1)]] k by simp_all
  have bnd: "k + csz + total post < 2 ^ 32" using h(4) k by simp
  have cb: "csz < 2 ^ 32" "asz < 2 ^ 32" "csz - asz < 2 ^ 32" using bnd a by simp_all
  have W: "wal j" if "4 dvd j" "j \<le> k + csz" for j
    using that bnd by (simp add: wal_def)
  have d4: "4 dvd k" "4 dvd asz" "4 dvd csz" using k8(1) a(2) cs(3) by presburger+
  have w: "wal (k - 4)" "wal ?x" "wal (?x + 4)" "wal (?x - 4)" "wal (k + csz - 8)"
  proof -
    have "4 dvd k - 4" "4 dvd ?x" "4 dvd ?x + 4" "4 dvd ?x - 4" "4 dvd k + csz - 8"
      using d4 k8(2) a cs(2) by presburger+
    then show "wal (k - 4)" "wal ?x" "wal (?x + 4)" "wal (?x - 4)" "wal (k + csz - 8)"
      using W a by simp_all
  qed
  have e: "asz + (csz - asz) = csz" using a by simp
  have hd0: "wd s (k - 4) = hdr csz False pa" using h(2) by (simp add: seg_append k)
  have sz0: "ucast (GET_SIZE s (HDRP ?bp)) = (of_nat csz :: size_t)"
    using GET_SIZE_hdr [OF hd0 cs(3)] k8(2) ucast_up_of_nat [OF cb(1)] by (simp add: HDRP_adr)
  define s1 where "s1 = remove_list s ?bp (of_nat csz)"
  have r: "heap_ok s1 ?B L1 {(k, csz)}" "upd (nlinks L) s s1"
    using remove_block(1,2) [OF ok refl k] by (simp_all add: s1_def L1_def)
  note h1 = heap_okD [OF r(1)]
  have hl1: "heap_listp s1 = heap_listp s" by (rule upd_frame(1) [OF r(2)])
  have hd1: "wd s1 (k - 4) = hdr csz False pa" using h1(2) by (simp add: seg_append k)
  have pa1: "GET_PREV_ALLOC s1 (HDRP ?bp) = (if pa then 2 else 0)"
    using GET_PREV_ALLOC_hdr [OF hd1 cs(3)] k8(2) by (simp add: HDRP_adr adr_cong [OF hl1])
  define s2 where "s2 = PUT s1 (adr s (k - 4)) (hdr asz True pa)"
  define s3 where "s3 = insert_list s2 (adr s ?x) (of_nat (csz - asz))"
  define s4 where "s4 = PUT s3 (adr s (?x - 4)) (hdr (csz - asz) False True)"
  define s5 where "s5 = PUT s4 (adr s (k + csz - 8)) (of_nat (csz - asz))"
  have hl: "heap_listp s2 = heap_listp s" "heap_listp s3 = heap_listp s"
    "heap_listp s4 = heap_listp s" "heap_listp s5 = heap_listp s"
    by (simp_all add: s2_def s3_def s4_def s5_def PUT_frame insert_list_frame hl1)
  note A = adr_cong [OF hl1] adr_cong [OF hl(1)] adr_cong [OF hl(2)] adr_cong [OF hl(3)]
    adr_cong [OF hl(4)]
  have w2: "wd s2 (k - 4) = hdr asz True pa"
    unfolding s2_def using wd_PUT_al [OF w(1) w(1) hl1] by simp
  have nb2: "NEXT_BLKP s2 ?bp = adr s ?x"
    using NEXT_BLKP_adr [OF w2 a(2) cb(2)] k8(2) by (simp add: A)
  have diff: "(of_nat csz - of_nat asz :: size_t) = of_nat (csz - asz)"
    using a by (simp add: of_nat_diff)
  have cond: "(2 * DSIZE \<le> (of_nat csz - of_nat asz :: size_t)) = True"
    unfolding diff using of_nat_le64 [of 16 "csz - asz"] cb(3) a by simp
  have e2: "PUT s1 (HDRP ?bp) (ucast (PACK (of_nat asz) (ucast (1 + GET_PREV_ALLOC s1 (HDRP ?bp))))) = s2"
    unfolding pa1 pack_alloc s2_def using k8(2) by (simp add: HDRP_adr)
  have e3: "insert_list s2 (NEXT_BLKP s2 ?bp) (of_nat csz - of_nat asz) = s3"
    unfolding nb2 diff s3_def ..
  have e4: "PUT s3 (HDRP (NEXT_BLKP s2 ?bp)) (ucast (PACK (of_nat csz - of_nat asz) 2)) = s4"
    unfolding nb2 diff pack_2 s4_def using k8(2) by (simp add: HDRP_adr)
  have w4: "wd s4 (?x - 4) = hdr (csz - asz) False True"
    unfolding s4_def using wd_PUT_al [OF w(4) w(4) hl(2)] by simp
  have d8: "8 dvd csz - asz" using a(2) cs(3) by (rule dvd_diff_nat [rotated])
  have ft4: "FTRP s4 (NEXT_BLKP s2 ?bp) = adr s (k + csz - 8)"
    unfolding nb2 using FTRP_adr [OF w4 d8 cb(3)] k8(2) a by (simp add: A)
  have e5: "PUT s4 (FTRP s4 (NEXT_BLKP s2 ?bp)) (ucast (PACK (of_nat csz - of_nat asz) 0)) = s5"
    unfolding ft4 diff pack_0 s5_def ..
  have pl: "place s ?bp (of_nat asz) = s5"
    unfolding place_def Let_def sz0 s1_def [symmetric] cond if_True e2 e3 e4 e5 ..
  have len: "length L1 = 10" using lists_okD(5) [OF h1(5), of 0] by simp
  have hfB: "hf 8 ?B = hf 8 pre \<union> {k - 4, k + csz - 8} \<union> hf (k + csz) post"
    by (auto simp: hf_append k)
  have nh: "links (L1 ! c) \<inter> hf 8 ?B = {}" if "c < 10" for c
    by (rule nodes_not_hf [OF h1(7) h1(6) that])
  have u2: "upd {k - 4} s1 s2" unfolding s2_def by (rule upd_PUT' [OF hl1])
  have r2: "roots s2 = roots s1" by (simp add: s2_def PUT_frame)
  have l2: "lists_ok s2 L1"
  proof (rule lists_ok_upd [OF h1(5) u2 r2])
    show "\<forall>k\<in>{k - 4}. wal k" using w(1) by simp
    show "\<forall>c<10. links (L1 ! c) \<inter> {k - 4} = {}" using nh hfB by blast
  qed
  have fresh: "?x \<notin> nodes L1"
  proof
    assume "?x \<in> nodes L1"
    then have "?x \<in> fst ` (set (free_at 8 ?B) - {(k, csz)})"
      using listed_nodes [OF h1(6)] by simp
    then obtain z where "(?x, z) \<in> set (free_at 8 ?B)" by force
    from free_at_mid [OF h(7) this] show False using k a by auto
  qed
  have x8: "8 dvd ?x" "0 < ?x" "?x + 4 < 2 ^ 32" using k8 a bnd by simp_all
  have cx: "?c = class_of (unat (of_nat (csz - asz) :: size_t))"
    using cb(3) by (simp add: unat_of_nat64)
  have i3: "lists_ok s3 ?L3" "upd (links (?x # take 1 (L1 ! ?c))) s2 s3"
    using insert_list_ok [OF l2 fresh x8 cx] by (simp_all add: s3_def A)
  have c10: "?c < 10" by (rule class_of_less)
  have S3: "links (?x # take 1 (L1 ! ?c)) \<subseteq> {?x, ?x + 4} \<union> links (L1 ! ?c)"
    unfolding links_def using set_take_subset [of 1 "L1 ! ?c"] by auto
  have n3: "nodes_ok (?x # take 1 (L1 ! ?c))"
  proof (rule nodes_ok_mono [OF _ lists_okD(2) [OF i3(1) c10]])
    show "set (?x # take 1 (L1 ! ?c)) \<subseteq> set (?L3 ! ?c)"
      using set_take_subset [of 1 "L1 ! ?c"] c10 len by auto
  qed
  have fB: "set (free_at 8 ?B) = insert (k, csz) (set (free_at 8 pre) \<union> set (free_at (k + csz) post))"
    by (auto simp: free_at_append k)
  have fB': "set (free_at 8 ?B') = insert (?x, csz - asz) (set (free_at 8 pre) \<union> set (free_at (k + csz) post))"
    by (auto simp: free_at_append k add.assoc e)
  have nk: "(k, csz) \<notin> set (free_at 8 pre)" "(k, csz) \<notin> set (free_at (k + csz) post)"
  proof -
    show "(k, csz) \<notin> set (free_at 8 pre)"
      using free_at_range [OF sizes_ok_szs [OF cs(1)], of k csz 8] k cs(2) by auto
    show "(k, csz) \<notin> set (free_at (k + csz) post)"
      using free_at_range [OF chain_ok_szs [OF cs(4)], of k csz "k + csz"] cs(2) by auto
  qed
  have F: "set (free_at 8 ?B') - {} = insert (?x, csz - asz) (set (free_at 8 ?B) - {(k, csz)})"
    unfolding fB fB' using nk by auto
  have li: "listed (set (free_at 8 ?B') - {}) ?L3"
    unfolding F by (rule listed_insert [OF h1(6) len])
  have ch': "chain_ok ?B'"
    using cs a d8 by (simp add: chain_ok_append chain_ok_Cons)
  have hfB': "hf 8 ?B' = hf 8 pre \<union> {k - 4, ?x - 4, k + csz - 8} \<union> hf (k + csz) post"
    by (auto simp: hf_append k add.assoc e)
  have u45: "upd ({?x - 4} \<union> {k + csz - 8}) s3 s5"
    unfolding s4_def s5_def
    by (rule upd_trans [OF upd_PUT' [OF hl(2)] upd_PUT' [OF hl(3) [unfolded s4_def]]])
  have r5: "roots s5 = roots s3" by (simp add: s4_def s5_def PUT_frame)
  have l5: "lists_ok s5 ?L3"
  proof (rule lists_ok_upd [OF i3(1) u45 r5])
    show "\<forall>k\<in>{?x - 4} \<union> {k + csz - 8}. wal k" using w by simp
    show "\<forall>c<10. links (?L3 ! c) \<inter> ({?x - 4} \<union> {k + csz - 8}) = {}"
      using nodes_not_hf [OF chain_ok_szs [OF ch'] li] hfB' by blast
  qed
  let ?S = "{k - 4} \<union> links (?x # take 1 (L1 ! ?c)) \<union> ({?x - 4} \<union> {k + csz - 8})"
  have u15: "upd ?S s1 s5" by (rule upd_trans [OF upd_trans [OF u2 i3(2)] u45])
  have wS: "\<forall>j \<in> ?S. wal j" using w links_wal [OF n3] by auto
  have Smid: "j \<in> ?S \<Longrightarrow> j \<in> links (L1 ! ?c) \<or> (k - 4 \<le> j \<and> j \<le> k + csz - 8)" for j
    using S3 a by auto
  have pre5: "seg s5 8 pre = seg s1 8 pre"
  proof (rule seg_upd [OF u15 wS sizes_ok_szs [OF cs(1)]])
    show "8 + total pre < 2 ^ 32" using bnd k by simp
    show "hf 8 pre \<inter> ?S = {}"
    proof -
      have "j \<notin> ?S" if j: "j \<in> hf 8 pre" for j
      proof
        assume "j \<in> ?S"
        moreover have "j \<notin> links (L1 ! ?c)" using nh [OF c10] hfB j by blast
        moreover have "j + 8 \<le> k" using hf_range_strict [OF cs(1) j] k by simp
        ultimately show False using Smid [of j] k8(2) by auto
      qed
      then show ?thesis by blast
    qed
  qed simp_all
  have post5: "seg s5 (k + csz) post = seg s1 (k + csz) post"
  proof (rule seg_upd [OF u15 wS chain_ok_szs [OF cs(4)]])
    show "k + csz + total post < 2 ^ 32" by (rule bnd)
    show "4 dvd k + csz" using d4 by simp
    show "4 \<le> k + csz" using k8(2) by simp
    show "hf (k + csz) post \<inter> ?S = {}"
    proof -
      have "j \<notin> ?S" if j: "j \<in> hf (k + csz) post" for j
      proof
        assume "j \<in> ?S"
        moreover have "j \<notin> links (L1 ! ?c)" using nh [OF c10] hfB j by blast
        moreover have "k + csz \<le> j + 4"
          using hf_range [OF chain_ok_szs [OF cs(4)] j] k8(2) by simp
        ultimately show False using Smid [of j] cs(2) by auto
      qed
      then show ?thesis by blast
    qed
  qed
  have v1: "wd s5 (k - 4) = hdr asz True pa"
  proof -
    have "wd s3 (k - 4) = wd s2 (k - 4)"
    proof (rule upd_wd [OF i3(2) links_wal [OF n3] w(1)])
      have "k - 4 \<notin> links (L1 ! ?c)" using nh [OF c10] hfB by blast
      then show "k - 4 \<notin> links (?x # take 1 (L1 ! ?c))" using S3 k8(2) by auto
    qed
    moreover have "k - 4 \<noteq> k + csz - 8" "k - 4 \<noteq> k + asz - 4" using k8(2) a by arith+
    then have "wd s5 (k - 4) = wd s3 (k - 4)"
      using upd_wd [OF u45 _ w(1)] w by simp
    ultimately show ?thesis using w2 by simp
  qed
  have v2: "wd s5 (?x - 4) = hdr (csz - asz) False True"
  proof -
    have "?x - 4 \<noteq> k + csz - 8" using k8(2) a by arith
    then show ?thesis
      unfolding s5_def using wd_PUT_al [OF w(4) w(5) hl(3)] w4 by simp
  qed
  have v3: "wd s5 (k + csz - 8) = of_nat (csz - asz)"
    unfolding s5_def using wd_PUT_al [OF w(5) w(5) hl(3)] by simp
  have sg1: "seg s1 8 pre" "seg s1 (k + csz) post"
    using h1(2) by (simp_all add: seg_append k)
  have sg: "seg s5 8 ?B'"
  proof -
    have "seg s5 (k + asz + (csz - asz)) post" "wd s5 (k + asz + (csz - asz) - 8) = of_nat (csz - asz)"
      using sg1 post5 v3 by (simp_all add: add.assoc e)
    then show ?thesis
      using sg1 pre5 v1 v2 by (simp add: seg_append k [symmetric])
  qed
  have fr5: "mem_brk s5 = mem_brk s"
    using upd_frame(2) [OF u15] upd_frame(2) [OF r(2)] by simp
  have tot: "total ?B' = total ?B" using a by simp
  have "heap_ok s5 ?B' ?L3 {}"
    unfolding heap_ok_def using ch' sg li l5 h(3,4) fr5 unfolding tot by (simp add: A)
  then show "heap_ok (place s ?bp (of_nat asz)) ?B' ?L3 {}" by (simp add: pl)
  have U: "upd (nlinks L \<union> ?S) s s5" by (rule upd_trans [OF r(2) u15])
  have Sub: "?S \<subseteq> nlinks L \<union> {j. k - 4 \<le> j \<and> j \<le> k + csz - 4}"
  proof
    fix j assume j: "j \<in> ?S"
    have nl: "links (L1 ! ?c) \<subseteq> nlinks L"
      using nlinks_class [OF c10, of L1] nlinks_remove [of L "class_of csz" k]
      unfolding L1_def by (rule subset_trans)
    from Smid [OF j] show "j \<in> nlinks L \<union> {j. k - 4 \<le> j \<and> j \<le> k + csz - 4}"
    proof
      assume "j \<in> links (L1 ! ?c)"
      then show ?thesis using nl by blast
    next
      assume "k - 4 \<le> j \<and> j \<le> k + csz - 8"
      then have "k - 4 \<le> j \<and> j \<le> k + csz - 4" by arith
      then show ?thesis by simp
    qed
  qed
  have "upd (nlinks L \<union> {j. k - 4 \<le> j \<and> j \<le> k + csz - 4}) s s5"
    by (rule upd_mono [OF U Un_least [OF Un_upper1 Sub]])
  then show "upd (nlinks L \<union> {j. k - 4 \<le> j \<and> j \<le> k + csz - 4}) s (place s ?bp (of_nat asz))"
    by (simp add: pl)
qed


lemma hf_set_pa [simp]: "hf k (set_pa p bs) = hf k bs"
  by (cases bs) auto

lemma chain_ok_set_pa [simp]: "chain_ok (set_pa p bs) = chain_ok bs"
proof (cases bs)
  case Nil
  then show ?thesis by simp
next
  case (Cons b bs')
  obtain sz al pa where b: "b = (sz, al, pa)" by (cases b)
  show ?thesis unfolding Cons b by (cases bs') simp_all
qed

lemma place_whole:
  assumes ok: "heap_ok s (pre @ (csz, False, pa) # post) L {}"
    and k: "k = 8 + total pre"
    and a: "asz \<le> csz" "csz - asz < 16"
  defines "L1 \<equiv> L[class_of csz := remove1 k (L ! class_of csz)]"
  shows "heap_ok (place s (adr s k) (of_nat asz)) (pre @ (csz, True, pa) # set_pa True post) L1 {}"
    and "upd (nlinks L \<union> {j. k - 4 \<le> j \<and> j \<le> k + csz - 4}) s (place s (adr s k) (of_nat asz))"
proof -
  let ?B = "pre @ (csz, False, pa) # post"
  let ?B' = "pre @ (csz, True, pa) # set_pa True post"
  let ?bp = "adr s k"
  note h = heap_okD [OF ok]
  note cs = chain_split [OF h(1)]
  obtain nsz nal npa post' where post: "post = (nsz, nal, npa) # post'"
    using cs(5) by (cases post) auto
  have k8: "8 dvd k" "8 \<le> k" using total_8 [OF sizes_ok_szs [OF cs(1)]] k by simp_all
  have bnd: "k + csz + total post < 2 ^ 32" using h(4) k by simp
  have cb: "csz < 2 ^ 32" "asz < 2 ^ 32" "csz - asz < 2 ^ 32" using bnd a by simp_all
  have d4: "4 dvd k" "4 dvd csz" using k8(1) cs(3) by presburger+
  have w: "wal (k - 4)" "wal (k + csz - 4)"
  proof -
    have "4 dvd k - 4" "4 dvd k + csz - 4" using d4 k8(2) cs(2) by presburger+
    then show "wal (k - 4)" "wal (k + csz - 4)" using bnd by (simp_all add: wal_def)
  qed
  have n8: "8 dvd nsz" using chain_ok_szs [OF cs(4)] by (simp add: post)
  have n16: "post' \<noteq> [] \<Longrightarrow> 16 \<le> nsz" using cs(4) chain_ok_Cons [of post'] by (simp add: post)
  have hd0: "wd s (k - 4) = hdr csz False pa" using h(2) by (simp add: seg_append k)
  have sz0: "ucast (GET_SIZE s (HDRP ?bp)) = (of_nat csz :: size_t)"
    using GET_SIZE_hdr [OF hd0 cs(3)] k8(2) ucast_up_of_nat [OF cb(1)] by (simp add: HDRP_adr)
  define s1 where "s1 = remove_list s ?bp (of_nat csz)"
  have r: "heap_ok s1 ?B L1 {(k, csz)}" "upd (nlinks L) s s1"
    using remove_block(1,2) [OF ok refl k] by (simp_all add: s1_def L1_def)
  note h1 = heap_okD [OF r(1)]
  have hl1: "heap_listp s1 = heap_listp s" by (rule upd_frame(1) [OF r(2)])
  have hd1: "wd s1 (k - 4) = hdr csz False pa" using h1(2) by (simp add: seg_append k)
  have nh1: "wd s1 (k + csz - 4) = hdr nsz nal npa"
    using h1(2) by (simp add: seg_append k post)
  have pa1: "GET_PREV_ALLOC s1 (HDRP ?bp) = (if pa then 2 else 0)"
    using GET_PREV_ALLOC_hdr [OF hd1 cs(3)] k8(2) by (simp add: HDRP_adr adr_cong [OF hl1])
  define s2 where "s2 = PUT s1 (adr s (k - 4)) (hdr csz True pa)"
  define s3 where "s3 = PUT s2 (adr s (k + csz - 4)) (hdr nsz nal True)"
  have hl: "heap_listp s2 = heap_listp s" "heap_listp s3 = heap_listp s"
    by (simp_all add: s2_def s3_def PUT_frame hl1)
  note A = adr_cong [OF hl1] adr_cong [OF hl(1)] adr_cong [OF hl(2)]
  have ne: "k + csz - 4 \<noteq> k - 4" using k8(2) cs(2) by arith
  have w2: "wd s2 (k - 4) = hdr csz True pa" "wd s2 (k + csz - 4) = hdr nsz nal npa"
    unfolding s2_def using wd_PUT_al [OF w(1) w(1) hl1] wd_PUT_al [OF w(2) w(1) hl1] nh1 ne
    by simp_all
  have nb2: "NEXT_BLKP s2 ?bp = adr s (k + csz)"
    using NEXT_BLKP_adr [OF w2(1) cs(3) cb(1)] k8(2) by (simp add: A)
  have diff: "(of_nat csz - of_nat asz :: size_t) = of_nat (csz - asz)"
    using a by (simp add: of_nat_diff)
  have cond: "(2 * DSIZE \<le> (of_nat csz - of_nat asz :: size_t)) = False"
    unfolding diff using of_nat_le64 [of 16 "csz - asz"] cb(3) a by simp
  have e2: "PUT s1 (HDRP ?bp) (ucast (PACK (of_nat csz) (ucast (1 + GET_PREV_ALLOC s1 (HDRP ?bp))))) = s2"
    unfolding pa1 pack_alloc s2_def using k8(2) by (simp add: HDRP_adr)
  have hn: "HDRP (NEXT_BLKP s2 ?bp) = adr s (k + csz - 4)"
    unfolding nb2 using k8(2) by (simp add: HDRP_adr)
  have g2: "GET s2 (adr s (k + csz - 4)) OR 2 = hdr nsz nal True"
    using w2(2) hdr_set [of nsz nal npa] by (simp add: wd_def A)
  have e3: "PUT s2 (HDRP (NEXT_BLKP s2 ?bp)) (GET s2 (HDRP (NEXT_BLKP s2 ?bp)) OR 2) = s3"
    unfolding hn g2 s3_def ..
  have pl: "place s ?bp (of_nat asz) = s3"
    unfolding place_def Let_def sz0 s1_def [symmetric] cond if_False e2 e3 ..
  have hfB: "hf 8 ?B = hf 8 pre \<union> {k - 4, k + csz - 8} \<union> hf (k + csz) post"
    by (auto simp: hf_append k)
  have inB: "k - 4 \<in> hf 8 ?B" "k + csz - 4 \<in> hf 8 ?B"
    unfolding hfB by (simp_all add: post)
  have u13: "upd ({k - 4} \<union> {k + csz - 4}) s1 s3"
    unfolding s2_def s3_def
    by (rule upd_trans [OF upd_PUT' [OF hl1] upd_PUT' [OF hl(1) [unfolded s2_def]]])
  have wS: "\<forall>j \<in> {k - 4} \<union> {k + csz - 4}. wal j" using w by simp
  have r3: "roots s3 = roots s1" by (simp add: s2_def s3_def PUT_frame)
  have l3: "lists_ok s3 L1"
  proof (rule lists_ok_upd [OF h1(5) u13 r3 wS])
    show "\<forall>c<10. links (L1 ! c) \<inter> ({k - 4} \<union> {k + csz - 4}) = {}"
      using nodes_not_hf [OF h1(7) h1(6)] inB by blast
  qed
  have fB: "set (free_at 8 ?B) = insert (k, csz) (set (free_at 8 pre) \<union> set (free_at (k + csz) post))"
    by (auto simp: free_at_append k)
  have fB': "set (free_at 8 ?B') = set (free_at 8 pre) \<union> set (free_at (k + csz) post)"
    by (auto simp: free_at_append k)
  have nk: "(k, csz) \<notin> set (free_at 8 pre)" "(k, csz) \<notin> set (free_at (k + csz) post)"
  proof -
    show "(k, csz) \<notin> set (free_at 8 pre)"
      using free_at_range [OF sizes_ok_szs [OF cs(1)], of k csz 8] k cs(2) by auto
    show "(k, csz) \<notin> set (free_at (k + csz) post)"
      using free_at_range [OF chain_ok_szs [OF cs(4)], of k csz "k + csz"] cs(2) by auto
  qed
  have F: "set (free_at 8 ?B') - {} = set (free_at 8 ?B) - {(k, csz)}"
    unfolding fB fB' using nk by auto
  have li: "listed (set (free_at 8 ?B') - {}) L1"
    unfolding F by (rule h1(6))
  have ch': "chain_ok ?B'"
  proof -
    have c1: "chain_ok (set_pa True post)" using cs(4) by simp
    have c2: "set_pa True post \<noteq> []" by (simp add: post)
    have "chain_ok ((csz, True, pa) # set_pa True post)"
      using chain_ok_Cons [OF c2, of "(csz, True, pa)"] c1 cs(2,3) by simp
    then show ?thesis using cs(1) by (simp add: chain_ok_append)
  qed
  have pre3: "seg s3 8 pre = seg s1 8 pre"
  proof (rule seg_upd [OF u13 wS sizes_ok_szs [OF cs(1)]])
    show "8 + total pre < 2 ^ 32" using bnd k by simp
    show "hf 8 pre \<inter> ({k - 4} \<union> {k + csz - 4}) = {}"
    proof -
      have "j \<notin> {k - 4} \<union> {k + csz - 4}" if j: "j \<in> hf 8 pre" for j
      proof -
        have "j + 8 \<le> k" using hf_range_strict [OF cs(1) j] k by simp
        then show ?thesis using k8(2) by auto
      qed
      then show ?thesis by blast
    qed
  qed simp_all
  have sg1: "seg s1 8 pre" "seg s1 (k + csz + nsz) post'"
    "\<not> nal \<longrightarrow> wd s1 (k + csz + nsz - 8) = of_nat nsz"
    using h1(2) by (simp_all add: seg_append k post)
  have szp: "szs post'" using chain_ok_szs [OF cs(4)] by (simp add: post)
  have post3: "seg s3 (k + csz + nsz) post' = seg s1 (k + csz + nsz) post'"
  proof (rule seg_upd [OF u13 wS szp])
    show "k + csz + nsz + total post' < 2 ^ 32" using bnd by (simp add: post)
    show "4 dvd k + csz + nsz" using d4 n8 by presburger
    show "4 \<le> k + csz + nsz" using k8(2) by simp
    show "hf (k + csz + nsz) post' \<inter> ({k - 4} \<union> {k + csz - 4}) = {}"
    proof -
      have "j \<notin> {k - 4} \<union> {k + csz - 4}" if j: "j \<in> hf (k + csz + nsz) post'" for j
      proof -
        have "post' \<noteq> []" using j by auto
        then have "16 \<le> nsz" by (rule n16)
        moreover have "k + csz + nsz \<le> j + 4" using hf_range [OF szp j] k8(2) by simp
        ultimately show ?thesis using cs(2) by auto
      qed
      then show ?thesis by blast
    qed
  qed
  have v1: "wd s3 (k - 4) = hdr csz True pa"
    unfolding s3_def using wd_PUT_al [OF w(1) w(2) hl(1)] w2(1) ne by simp
  have v2: "wd s3 (k + csz - 4) = hdr nsz nal True"
    unfolding s3_def using wd_PUT_al [OF w(2) w(2) hl(1)] by simp
  have v3: "wd s3 (k + csz + nsz - 8) = of_nat nsz" if "\<not> nal"
  proof -
    have "16 \<le> nsz" using chain_ok_szs [OF cs(4)] that by (simp add: post)
    then have ne': "k + csz + nsz - 8 \<noteq> k - 4" "k + csz + nsz - 8 \<noteq> k + csz - 4"
      using k8(2) by arith+
    have wj: "wal (k + csz + nsz - 8)"
    proof -
      have "4 dvd k + csz + nsz - 8" using d4 n8 \<open>16 \<le> nsz\<close> by presburger
      then show ?thesis using bnd by (simp add: wal_def post)
    qed
    have "wd s3 (k + csz + nsz - 8) = wd s1 (k + csz + nsz - 8)"
      using upd_wd [OF u13 wS wj] ne' by simp
    then show ?thesis using sg1(3) that by simp
  qed
  have sg: "seg s3 8 ?B'"
  proof -
    have "seg s3 (k + csz) (set_pa True post)"
      using v2 v3 post3 sg1(2) by (simp add: post)
    then show ?thesis
      using sg1(1) pre3 v1 by (simp add: seg_append k [symmetric])
  qed
  have fr3: "mem_brk s3 = mem_brk s"
    using upd_frame(2) [OF u13] upd_frame(2) [OF r(2)] by simp
  have "heap_ok s3 ?B' L1 {}"
    unfolding heap_ok_def using ch' sg li l3 h(3,4) fr3 by (simp add: A)
  then show "heap_ok (place s ?bp (of_nat asz)) ?B' L1 {}" by (simp add: pl)
  have U: "upd (nlinks L \<union> ({k - 4} \<union> {k + csz - 4})) s s3" by (rule upd_trans [OF r(2) u13])
  have Sub: "{k - 4} \<union> {k + csz - 4} \<subseteq> nlinks L \<union> {j. k - 4 \<le> j \<and> j \<le> k + csz - 4}"
    by auto
  have "upd (nlinks L \<union> {j. k - 4 \<le> j \<and> j \<le> k + csz - 4}) s s3"
    by (rule upd_mono [OF U Un_least [OF Un_upper1 Sub]])
  then show "upd (nlinks L \<union> {j. k - 4 \<le> j \<and> j \<le> k + csz - 4}) s (place s ?bp (of_nat asz))"
    by (simp add: pl)
qed

section \<open>Linking a block, changing a header bit, merging blocks\<close>

lemma free_at_in: "(k + total pre, sz) \<in> set (free_at k (pre @ (sz, False, pa) # post))"
  by (simp add: free_at_append)

lemma insert_block:
  assumes ok: "heap_ok s B L X" and B: "B = pre @ (sz, False, pa) # post"
    and k: "k = 8 + total pre" and x: "(k, sz) \<in> X"
  shows "heap_ok (insert_list s (adr s k) (of_nat sz)) B
           (L[class_of sz := k # L ! class_of sz]) (X - {(k, sz)})"
    and "upd (nlinks L \<union> {k, k + 4}) s (insert_list s (adr s k) (of_nat sz))"
proof -
  let ?c = "class_of sz"
  let ?s1 = "insert_list s (adr s k) (of_nat sz)"
  let ?L1 = "L[?c := k # L ! ?c]"
  note h = heap_okD [OF ok]
  note cs = chain_split [OF h(1) [unfolded B]]
  have k8: "8 dvd k" "8 \<le> k" using total_8 [OF sizes_ok_szs [OF cs(1)]] k by simp_all
  have bnd: "k + sz + total post < 2 ^ 32" using h(4) k by (simp add: B)
  have sb: "sz < 2 ^ 32" using bnd by simp
  have c: "?c = class_of (unat (of_nat sz :: size_t))" using sb by (simp add: unat_of_nat64)
  have c10: "?c < 10" by (rule class_of_less)
  have fr: "(k, sz) \<in> set (free_at 8 B)" unfolding B k by (rule free_at_in)
  have fresh: "k \<notin> nodes L"
  proof
    assume "k \<in> nodes L"
    then have "k \<in> fst ` (set (free_at 8 B) - X)" using listed_nodes [OF h(6)] by simp
    then obtain z where z: "(k, z) \<in> set (free_at 8 B)" "(k, z) \<notin> X" by force
    from free_at_fun [OF h(7) z(1) fr] z(2) x show False by simp
  qed
  have x8: "0 < k" "k + 4 < 2 ^ 32" using k8(2) bnd cs(2) by simp_all
  note i = insert_list_ok [OF h(5) fresh k8(1) x8 c]
  have len: "length L = 10" using lists_okD(5) [OF h(5) c10] .
  have S: "links (k # take 1 (L ! ?c)) \<subseteq> {k, k + 4} \<union> links (L ! ?c)"
    unfolding links_def using set_take_subset [of 1 "L ! ?c"] by auto
  have n1: "nodes_ok (k # take 1 (L ! ?c))"
  proof (rule nodes_ok_mono [OF _ lists_okD(2) [OF i(1) c10]])
    show "set (k # take 1 (L ! ?c)) \<subseteq> set (?L1 ! ?c)"
      using set_take_subset [of 1 "L ! ?c"] c10 len by auto
  qed
  have "seg ?s1 8 B = seg s 8 B"
  proof (rule seg_upd [OF i(2) links_wal [OF n1] h(7)])
    show "8 + total B < 2 ^ 32" by (rule h(4))
    show "hf 8 B \<inter> links (k # take 1 (L ! ?c)) = {}"
      using nodes_not_hf [OF h(7) h(6) c10] S free_not_hf [OF h(7) fr] by auto
  qed simp_all
  then have sg: "seg ?s1 8 B" using h(2) by simp
  have "listed (insert (k, sz) (set (free_at 8 B) - X)) ?L1"
    by (rule listed_insert [OF h(6) len])
  then have li: "listed (set (free_at 8 B) - (X - {(k, sz)})) ?L1"
    by (rule listed_cong) (use fr in blast)
  show "heap_ok ?s1 B ?L1 (X - {(k, sz)})"
    unfolding heap_ok_def using h(1,3,4) sg i(1) li
    by (simp add: insert_list_frame adr_def)
  have "links (k # take 1 (L ! ?c)) \<subseteq> nlinks L \<union> {k, k + 4}"
    using S nlinks_class [OF c10, of L] by blast
  then show "upd (nlinks L \<union> {k, k + 4}) s ?s1" by (rule upd_mono [OF i(2)])
qed

lemma set_next_pa:
  assumes ok: "heap_ok s (pre @ post) L X" and pre: "sizes_ok pre" "pre \<noteq> []"
    and post: "post = (nsz, nal, npa) # post'" and k: "k = 8 + total pre"
  shows "heap_ok (PUT s (adr s (k - 4)) (hdr nsz nal p)) (pre @ set_pa p post) L X"
    and "upd {k - 4} s (PUT s (adr s (k - 4)) (hdr nsz nal p))"
proof -
  let ?s1 = "PUT s (adr s (k - 4)) (hdr nsz nal p)"
  note h = heap_okD [OF ok]
  have ch: "chain_ok post" using h(1) chain_ok_append [of post pre] post by simp
  have k8: "8 dvd k" "8 \<le> k" using total_8 [OF sizes_ok_szs [OF pre(1)]] k by simp_all
  have bnd: "k + total post < 2 ^ 32" using h(4) k by simp
  have w: "wal (k - 4)"
  proof -
    have "4 dvd k - 4" using k8 by presburger
    then show ?thesis using bnd by (simp add: wal_def)
  qed
  have n8: "8 dvd nsz" using chain_ok_szs [OF ch] by (simp add: post)
  have n16: "post' \<noteq> [] \<Longrightarrow> 16 \<le> nsz" using ch chain_ok_Cons [of post'] by (simp add: post)
  have u: "upd {k - 4} s ?s1" by (rule upd_PUT)
  then show "upd {k - 4} s ?s1" .
  have wS: "\<forall>j \<in> {k - 4}. wal j" using w by simp
  have inB: "k - 4 \<in> hf 8 (pre @ post)" by (simp add: hf_append k post)
  have l1: "lists_ok ?s1 L"
  proof (rule lists_ok_upd [OF h(5) u _ wS])
    show "roots ?s1 = roots s" by (simp add: PUT_frame)
    show "\<forall>c<10. links (L ! c) \<inter> {k - 4} = {}"
      using nodes_not_hf [OF h(7) h(6)] inB by blast
  qed
  have pre1: "seg ?s1 8 pre = seg s 8 pre"
  proof (rule seg_upd [OF u wS sizes_ok_szs [OF pre(1)]])
    show "8 + total pre < 2 ^ 32" using bnd k by simp
    show "hf 8 pre \<inter> {k - 4} = {}"
    proof -
      have "j \<noteq> k - 4" if j: "j \<in> hf 8 pre" for j
        using hf_range_strict [OF pre(1) j] k k8(2) by simp
      then show ?thesis by blast
    qed
  qed simp_all
  have szp: "szs post'" using chain_ok_szs [OF ch] by (simp add: post)
  have d4: "4 dvd k + nsz" using k8(1) n8 by presburger
  have post1: "seg ?s1 (k + nsz) post' = seg s (k + nsz) post'"
  proof (rule seg_upd [OF u wS szp d4])
    show "k + nsz + total post' < 2 ^ 32" using bnd by (simp add: post)
    show "4 \<le> k + nsz" using k8(2) by simp
    show "hf (k + nsz) post' \<inter> {k - 4} = {}"
    proof -
      have "j \<noteq> k - 4" if j: "j \<in> hf (k + nsz) post'" for j
      proof -
        have "post' \<noteq> []" using j by auto
        then have "16 \<le> nsz" by (rule n16)
        moreover have "k + nsz \<le> j + 4" using hf_range [OF szp j] k8(2) by simp
        ultimately show ?thesis by simp
      qed
      then show ?thesis by blast
    qed
  qed
  have sg0: "seg s 8 pre" "seg s (k + nsz) post'" "\<not> nal \<longrightarrow> wd s (k + nsz - 8) = of_nat nsz"
    using h(2) by (simp_all add: seg_append k post)
  have v1: "wd ?s1 (k - 4) = hdr nsz nal p"
    using wd_PUT_al [OF w w refl, of s] by simp
  have v2: "wd ?s1 (k + nsz - 8) = of_nat nsz" if "\<not> nal"
  proof -
    have "16 \<le> nsz" using chain_ok_szs [OF ch] that by (simp add: post)
    then have ne: "k + nsz - 8 \<noteq> k - 4" using k8(2) by arith
    have wj: "wal (k + nsz - 8)"
    proof -
      have "4 dvd k + nsz - 8" using k8 n8 \<open>16 \<le> nsz\<close> by presburger
      then show ?thesis using bnd by (simp add: wal_def post)
    qed
    have "wd ?s1 (k + nsz - 8) = wd s (k + nsz - 8)"
      using upd_wd [OF u wS wj] ne by simp
    then show ?thesis using sg0(3) that by simp
  qed
  have sg: "seg ?s1 8 (pre @ set_pa p post)"
    using sg0 pre1 post1 v1 v2 by (simp add: seg_append k [symmetric] post)
  have cp: "chain_ok (pre @ set_pa p post)"
  proof -
    have "set_pa p post \<noteq> []" by (simp add: post)
    from chain_ok_append [OF this, of pre] show ?thesis using pre(1) ch by simp
  qed
  show "heap_ok ?s1 (pre @ set_pa p post) L X"
    unfolding heap_ok_def using cp sg l1 h(3,4,6)
    by (simp add: PUT_frame adr_def free_at_append)
qed

lemma hf_first_last:
  "mid \<noteq> [] \<Longrightarrow> \<forall>b \<in> set mid. \<not> fst (snd b) \<Longrightarrow>
   k - 4 \<in> hf k mid \<and> k + total mid - 8 \<in> hf k mid"
proof (induction mid arbitrary: k)
  case Nil
  then show ?case by simp
next
  case (Cons b bs)
  obtain sz al pa where b: "b = (sz, al, pa)" by (cases b)
  have al: "\<not> al" using Cons.prems(2) by (simp add: b)
  show ?case
  proof (cases "bs = []")
    case True
    then show ?thesis using al by (simp add: b)
  next
    case False
    have "k + sz + total bs - 8 \<in> hf (k + sz) bs"
      using Cons.IH [OF False, of "k + sz"] Cons.prems(2) by simp
    then show ?thesis using al by (simp add: b add.assoc)
  qed
qed

lemma total_ge: "sizes_ok mid \<Longrightarrow> mid \<noteq> [] \<Longrightarrow> 16 \<le> total mid"
  by (cases mid) auto

lemma merge_blocks:
  assumes ok: "heap_ok s (pre @ mid @ post) L X"
    and k0: "k0 = 8 + total pre"
    and mid: "mid \<noteq> []" "sizes_ok mid" "\<forall>b \<in> set mid. \<not> fst (snd b)"
      "set (free_at k0 mid) \<subseteq> X"
    and post: "post \<noteq> []"
    and u: "upd {k0 - 4, k0 + total mid - 8} s s'" and r: "roots s' = roots s"
    and v: "wd s' (k0 - 4) = hdr (total mid) False p"
      "wd s' (k0 + total mid - 8) = of_nat (total mid)"
  shows "heap_ok s' (pre @ (total mid, False, p) # post) L
           (insert (k0, total mid) (X - set (free_at k0 mid)))"
proof -
  let ?m = "total mid"
  let ?B = "pre @ mid @ post"
  let ?B' = "pre @ (?m, False, p) # post"
  note h = heap_okD [OF ok]
  have mp: "mid @ post \<noteq> []" using post by simp
  have cs: "sizes_ok pre" "chain_ok post"
    using h(1) chain_ok_append [OF mp, of pre] chain_ok_append [OF post, of mid] by simp_all
  have m16: "16 \<le> ?m" by (rule total_ge [OF mid(2,1)])
  have m8: "8 dvd ?m" by (rule total_8 [OF sizes_ok_szs [OF mid(2)]])
  have k8: "8 dvd k0" "8 \<le> k0" using total_8 [OF sizes_ok_szs [OF cs(1)]] k0 by simp_all
  have bnd: "k0 + ?m + total post < 2 ^ 32" using h(4) k0 by simp
  have w: "wal (k0 - 4)" "wal (k0 + ?m - 8)"
  proof -
    have "4 dvd k0 - 4" "4 dvd k0 + ?m - 8" using k8 m8 m16 by presburger+
    then show "wal (k0 - 4)" "wal (k0 + ?m - 8)" using bnd by (simp_all add: wal_def)
  qed
  have wS: "\<forall>j \<in> {k0 - 4, k0 + ?m - 8}. wal j" using w by simp
  have inB: "k0 - 4 \<in> hf 8 ?B" "k0 + ?m - 8 \<in> hf 8 ?B"
    using hf_first_last [OF mid(1,3), of k0] by (simp_all add: hf_append k0)
  have l1: "lists_ok s' L"
  proof (rule lists_ok_upd [OF h(5) u r wS])
    show "\<forall>c<10. links (L ! c) \<inter> {k0 - 4, k0 + ?m - 8} = {}"
      using nodes_not_hf [OF h(7) h(6)] inB by blast
  qed
  have pre1: "seg s' 8 pre = seg s 8 pre"
  proof (rule seg_upd [OF u wS sizes_ok_szs [OF cs(1)]])
    show "8 + total pre < 2 ^ 32" using bnd k0 by simp
    show "hf 8 pre \<inter> {k0 - 4, k0 + ?m - 8} = {}"
    proof -
      have "j \<notin> {k0 - 4, k0 + ?m - 8}" if j: "j \<in> hf 8 pre" for j
      proof -
        have "j + 8 \<le> k0" using hf_range_strict [OF cs(1) j] k0 by simp
        then show ?thesis using k8(2) m16 by auto
      qed
      then show ?thesis by blast
    qed
  qed simp_all
  have d4: "4 dvd k0 + ?m" using k8(1) m8 by presburger
  have post1: "seg s' (k0 + ?m) post = seg s (k0 + ?m) post"
  proof (rule seg_upd [OF u wS chain_ok_szs [OF cs(2)] d4])
    show "k0 + ?m + total post < 2 ^ 32" by (rule bnd)
    show "4 \<le> k0 + ?m" using k8(2) by simp
    show "hf (k0 + ?m) post \<inter> {k0 - 4, k0 + ?m - 8} = {}"
    proof -
      have "j \<notin> {k0 - 4, k0 + ?m - 8}" if j: "j \<in> hf (k0 + ?m) post" for j
      proof -
        have "k0 + ?m \<le> j + 4" using hf_range [OF chain_ok_szs [OF cs(2)] j] k8(2) by simp
        then show ?thesis using m16 by auto
      qed
      then show ?thesis by blast
    qed
  qed
  have sg0: "seg s 8 pre" "seg s (k0 + ?m) post"
    using h(2) by (simp_all add: seg_append k0 add.assoc)
  have sg: "seg s' 8 ?B'"
    using sg0 pre1 post1 v by (simp add: seg_append k0 [symmetric])
  have cp: "chain_ok ?B'"
  proof -
    have "chain_ok ((?m, False, p) # post)"
      using chain_ok_Cons [OF post, of "(?m, False, p)"] m16 m8 cs(2) by simp
    then show ?thesis using cs(1) by (simp add: chain_ok_append)
  qed
  let ?Fp = "set (free_at 8 pre)"
  let ?M = "set (free_at k0 mid)"
  let ?Fq = "set (free_at (k0 + ?m) post)"
  have F: "set (free_at 8 ?B) = ?Fp \<union> ?M \<union> ?Fq"
    by (simp add: free_at_append k0 add.assoc Un_assoc)
  have F': "set (free_at 8 ?B') = insert (k0, ?m) (?Fp \<union> ?Fq)"
    by (simp add: free_at_append k0 add.assoc)
  have rp: "x + 16 \<le> k0" if "(x, z) \<in> ?Fp" for x z
    using free_at_range [OF sizes_ok_szs [OF cs(1)] that] k0 by simp
  have rm: "k0 \<le> x \<and> x + 16 \<le> k0 + ?m" if "(x, z) \<in> ?M" for x z
    using free_at_range [OF sizes_ok_szs [OF mid(2)] that] by simp
  have rq: "k0 + ?m \<le> x" if "(x, z) \<in> ?Fq" for x z
    using free_at_range [OF chain_ok_szs [OF cs(2)] that] by simp
  have dj: "e \<notin> ?M" "e \<noteq> (k0, ?m)" if "e \<in> ?Fp \<union> ?Fq" for e
  proof -
    obtain x z where e: "e = (x, z)" by (cases e)
    show "e \<notin> ?M" using that rp [of x z] rq [of x z] rm [of x z] unfolding e by auto
    show "e \<noteq> (k0, ?m)" using that rp [of x z] rq [of x z] m16 unfolding e by auto
  qed
  have E: "set (free_at 8 ?B') - insert (k0, ?m) (X - ?M) = set (free_at 8 ?B) - X"
    unfolding F F' using dj mid(4) by blast
  have li: "listed (set (free_at 8 ?B') - insert (k0, ?m) (X - ?M)) L"
    unfolding E by (rule h(6))
  have tot: "total ?B' = total ?B" by simp
  show ?thesis
    unfolding heap_ok_def tot using cp sg l1 li h(3,4) upd_frame(2) [OF u]
    by (simp add: adr_cong [OF upd_frame(1) [OF u]])
qed

section \<open>Coalescing\<close>

lemma heap_ok_blk:
  assumes "heap_ok s (pre @ (sz, al, pa) # post) L X" "k = 8 + total pre"
  shows "wd s (k - 4) = hdr sz al pa" "\<not> al \<Longrightarrow> wd s (k + sz - 8) = of_nat sz"
    "8 dvd sz" "sz < 2 ^ 32" "8 \<le> k" "8 dvd k" "k + sz < 2 ^ 32"
proof -
  note h = heap_okD [OF assms(1)]
  show "wd s (k - 4) = hdr sz al pa" "\<not> al \<Longrightarrow> wd s (k + sz - 8) = of_nat sz"
    using h(2) by (simp_all add: seg_append assms(2))
  show "8 dvd sz" using h(7) by simp
  show "sz < 2 ^ 32" "k + sz < 2 ^ 32" using h(4) assms(2) by simp_all
  have "szs pre" using h(7) by simp
  from total_8 [OF this] show "8 \<le> k" "8 dvd k" using assms(2) by simp_all
qed

lemma reads:
  assumes hl: "heap_listp s' = heap_listp s"
    and w: "wd s' (k - 4) = hdr sz al pa" "8 dvd sz" "sz < 2 ^ 32" "8 \<le> k"
  shows "HDRP (adr s k) = adr s (k - 4)"
    "GET_SIZE s' (HDRP (adr s k)) = of_nat sz"
    "ucast (GET_SIZE s' (HDRP (adr s k))) = (of_nat sz :: size_t)"
    "GET_ALLOC s' (HDRP (adr s k)) = (if al then 1 else 0)"
    "GET_PREV_ALLOC s' (HDRP (adr s k)) = (if pa then 2 else 0)"
    "NEXT_BLKP s' (adr s k) = adr s (k + sz)"
    "GET s' (HDRP (adr s k)) = hdr sz al pa"
    "8 \<le> sz \<Longrightarrow> FTRP s' (adr s k) = adr s (k + sz - 8)"
proof -
  note A = adr_cong [OF hl]
  show H: "HDRP (adr s k) = adr s (k - 4)" using w(4) by (simp add: HDRP_adr)
  show G: "GET_SIZE s' (HDRP (adr s k)) = of_nat sz"
    unfolding H using GET_SIZE_hdr [OF w(1,2)] by (simp add: A)
  show "ucast (GET_SIZE s' (HDRP (adr s k))) = (of_nat sz :: size_t)"
    unfolding G by (rule ucast_up_of_nat [OF w(3)])
  show "GET_ALLOC s' (HDRP (adr s k)) = (if al then 1 else 0)"
    unfolding H using GET_ALLOC_hdr [OF w(1,2)] by (simp add: A)
  show "GET_PREV_ALLOC s' (HDRP (adr s k)) = (if pa then 2 else 0)"
    unfolding H using GET_PREV_ALLOC_hdr [OF w(1,2)] by (simp add: A)
  show "NEXT_BLKP s' (adr s k) = adr s (k + sz)"
    using NEXT_BLKP_adr [OF w(1,2,3)] w(4) by (simp add: A)
  show "GET s' (HDRP (adr s k)) = hdr sz al pa"
    unfolding H using w(1) by (simp add: wd_def A)
  show "FTRP s' (adr s k) = adr s (k + sz - 8)" if "8 \<le> sz"
    using FTRP_adr [OF w(1,2,3) _ that] w(4) by (simp add: A)
qed

lemma coalesce_tail:
  assumes ok: "heap_ok sC (pre @ (m, False, p) # post) LC XC"
    and k: "k = 8 + total pre" and x: "(k, m) \<in> XC" and hl: "heap_listp sC = heap_listp s"
  defines "s' \<equiv> insert_list sC (adr s k) (of_nat m)"
  defines "s'' \<equiv> PUT s' (HDRP (NEXT_BLKP s' (adr s k)))
                    (GET s' (HDRP (NEXT_BLKP s' (adr s k))) AND NOT 2)"
  shows "heap_ok s'' (pre @ (m, False, p) # set_pa False post)
           (LC[class_of m := k # LC ! class_of m]) (XC - {(k, m)})"
    and "upd (nlinks LC \<union> {k, k + 4} \<union> {k + m - 4}) sC s''"
proof -
  let ?B = "pre @ (m, False, p) # post"
  let ?L1 = "LC[class_of m := k # LC ! class_of m]"
  note AC = adr_cong [OF hl]
  have i: "heap_ok s' ?B ?L1 (XC - {(k, m)})" "upd (nlinks LC \<union> {k, k + 4}) sC s'"
    using insert_block [OF ok refl k x] by (simp_all add: s'_def AC)
  have hl': "heap_listp s' = heap_listp s" using upd_frame(1) [OF i(2)] hl by simp
  note A' = adr_cong [OF hl']
  note b = heap_ok_blk [OF i(1) k]
  note cs = chain_split [OF heap_okD(1) [OF i(1)]]
  obtain nsz nal npa post' where post: "post = (nsz, nal, npa) # post'"
    using cs(5) by (cases post) auto
  have ok2: "heap_ok s' ((pre @ [(m, False, p)]) @ (nsz, nal, npa) # post') ?L1 (XC - {(k, m)})"
    using i(1) by (simp add: post)
  have k2: "k + m = 8 + total (pre @ [(m, False, p)])" using k by simp
  note b2 = heap_ok_blk [OF ok2 k2]
  have k84: "8 \<le> k + m" using b(5) by simp
  note rd = reads [OF hl' b(1,3,4,5)]
  note rd2 = reads [OF hl' b2(1,3,4) k84]
  have clr: "hdr nsz nal npa AND NOT 2 = hdr nsz nal False" by (rule hdr_clear [OF b2(3)])
  have g: "GET s' (adr s (k + m - 4)) = hdr nsz nal npa"
    using rd2(7) unfolding rd2(1) .
  have e: "s'' = PUT s' (adr s' (k + m - 4)) (hdr nsz nal False)"
    unfolding s''_def rd(6) rd2(1) g clr by (simp add: A')
  have pre2: "sizes_ok (pre @ [(m, False, p)])" "pre @ [(m, False, p)] \<noteq> []"
    using cs by simp_all
  note sn = set_next_pa [OF ok2 pre2 refl k2, of False]
  show "heap_ok s'' (pre @ (m, False, p) # set_pa False post) ?L1 (XC - {(k, m)})"
    unfolding e using sn(1) by (simp add: post)
  have "upd {k + m - 4} s' s''" unfolding e by (rule sn(2))
  from upd_trans [OF i(2) this]
  show "upd (nlinks LC \<union> {k, k + 4} \<union> {k + m - 4}) sC s''" .
qed

lemma coalesce_case1:
  assumes ok: "heap_ok s (pre @ (sz, False, True) # (nsz, True, npa) # post') L {(k, sz)}"
    and k: "k = 8 + total pre"
  shows "fst (coalesce s (adr s k)) = adr s k"
    and "heap_ok (snd (coalesce s (adr s k)))
           (pre @ (sz, False, True) # (nsz, True, False) # post')
           (L[class_of sz := k # L ! class_of sz]) {}"
    and "upd (nlinks L \<union> {k, k + 4} \<union> {k + sz - 4}) s (snd (coalesce s (adr s k)))"
proof -
  let ?bp = "adr s k"
  let ?s' = "insert_list s ?bp (of_nat sz)"
  let ?s'' = "PUT ?s' (HDRP (NEXT_BLKP ?s' ?bp)) (GET ?s' (HDRP (NEXT_BLKP ?s' ?bp)) AND NOT 2)"
  note b = heap_ok_blk [OF ok k]
  note rd = reads [OF refl b(1,3,4,5)]
  have ok2: "heap_ok s ((pre @ [(sz, False, True)]) @ (nsz, True, npa) # post') L {(k, sz)}"
    using ok by simp
  have k2: "k + sz = 8 + total (pre @ [(sz, False, True)])" using k by simp
  note b2 = heap_ok_blk [OF ok2 k2]
  have k84: "8 \<le> k + sz" using b(5) by simp
  note rd2 = reads [OF refl b2(1,3,4) k84]
  have c1: "(GET_PREV_ALLOC s (HDRP ?bp) \<noteq> 0 \<and> GET_ALLOC s (HDRP (NEXT_BLKP s ?bp)) \<noteq> 0) = True"
    unfolding rd(5) rd(6) rd2(4) by simp
  have co: "coalesce s ?bp = (?bp, ?s'')"
    unfolding coalesce_def Let_def c1 if_True prod.case rd(3) ..
  have X0: "{(k, sz)} - {(k, sz)} = ({} :: (nat \<times> nat) set)" by simp
  note t = coalesce_tail [OF ok k _ refl, unfolded X0]
  show "fst (coalesce s ?bp) = ?bp" unfolding co by simp
  show "heap_ok (snd (coalesce s ?bp)) (pre @ (sz, False, True) # (nsz, True, False) # post')
      (L[class_of sz := k # L ! class_of sz]) {}"
    unfolding co snd_conv using t(1) by simp
  show "upd (nlinks L \<union> {k, k + 4} \<union> {k + sz - 4}) s (snd (coalesce s ?bp))"
    unfolding co snd_conv using t(2) by simp
qed


lemma pair_set_simps: "{a} \<union> {b} = {a, b}"
  by auto

lemma coalesce_case2:
  assumes ok: "heap_ok s (pre @ (sz, False, True) # (nsz, False, npa) # post') L {(k, sz)}"
    and k: "k = 8 + total pre"
  defines "L1 \<equiv> L[class_of nsz := remove1 (k + sz) (L ! class_of nsz)]"
  shows "fst (coalesce s (adr s k)) = adr s k"
    and "heap_ok (snd (coalesce s (adr s k)))
           (pre @ (sz + nsz, False, True) # set_pa False post')
           (L1[class_of (sz + nsz) := k # L1 ! class_of (sz + nsz)]) {}"
    and "upd (nlinks L \<union> {j. k - 4 \<le> j \<and> j \<le> k + sz + nsz - 4}) s (snd (coalesce s (adr s k)))"
proof -
  let ?bp = "adr s k"
  let ?m = "sz + nsz"
  let ?mid = "[(sz, False, True), (nsz, False, npa)]"
  note b = heap_ok_blk [OF ok k]
  note rd = reads [OF refl b(1,3,4,5)]
  have ok2: "heap_ok s ((pre @ [(sz, False, True)]) @ (nsz, False, npa) # post') L {(k, sz)}"
    using ok by simp
  have k2: "k + sz = 8 + total (pre @ [(sz, False, True)])" using k by simp
  note b2 = heap_ok_blk [OF ok2 k2]
  note cs2 = chain_split [OF heap_okD(1) [OF ok2]]
  have s16: "16 \<le> sz" using cs2(1) by simp
  have k84: "8 \<le> k + sz" using b(5) by simp
  note rd2 = reads [OF refl b2(1,3,4) k84]
  have c1: "(GET_PREV_ALLOC s (HDRP ?bp) \<noteq> 0 \<and> GET_ALLOC s (HDRP (adr s (k + sz))) \<noteq> 0) = False"
    unfolding rd(5) rd2(4) by simp
  have c2: "(GET_PREV_ALLOC s (HDRP ?bp) \<noteq> 0 \<and> GET_ALLOC s (HDRP (adr s (k + sz))) = 0) = True"
    unfolding rd(5) rd2(4) by simp
  have sum: "(of_nat sz + of_nat nsz :: size_t) = of_nat ?m" by simp
  define s1 where "s1 = remove_list s (adr s (k + sz)) (of_nat nsz)"
  define s2 where "s2 = PUT s1 (adr s (k - 4)) (hdr ?m False True)"
  define s3 where "s3 = PUT s2 (adr s (k + ?m - 8)) (of_nat ?m)"
  have nx: "(k + sz, nsz) \<notin> {(k, sz)}" using s16 by simp
  have r: "heap_ok s1 (pre @ ?mid @ post') L1 (insert (k + sz, nsz) {(k, sz)})" "upd (nlinks L) s s1"
    using remove_block(1,2) [OF ok2 refl k2 nx] by (simp_all add: s1_def L1_def)
  have hl1: "heap_listp s1 = heap_listp s" by (rule upd_frame(1) [OF r(2)])
  have hl: "heap_listp s2 = heap_listp s" "heap_listp s3 = heap_listp s"
    by (simp_all add: s2_def s3_def PUT_frame hl1)
  have mb: "?m < 2 ^ 32" "8 dvd ?m" "16 \<le> ?m" "k + ?m < 2 ^ 32"
    using b2(7) b(3) b2(3) s16 by (simp_all add: add.assoc)
  have w: "wal (k - 4)" "wal (k + ?m - 8)"
  proof -
    have "4 dvd k - 4" "4 dvd k + ?m - 8" using b(5,6) mb(2,3) by presburger+
    then show "wal (k - 4)" "wal (k + ?m - 8)" using mb(4) by (simp_all add: wal_def)
  qed
  have ne: "k - 4 \<noteq> k + ?m - 8" using b(5) mb(3) by arith
  have w2: "wd s2 (k - 4) = hdr ?m False True"
    unfolding s2_def using wd_PUT_al [OF w(1) w(1) hl1] by simp
  have e2: "PUT s1 (HDRP ?bp) (ucast (PACK (of_nat ?m) 2)) = s2"
    unfolding rd(1) pack_2 s2_def ..
  have ft: "FTRP s2 ?bp = adr s (k + ?m - 8)"
    using reads(8) [OF hl(1) w2 mb(2,1) b(5)] mb(3) by simp
  have e3: "PUT s2 (FTRP s2 ?bp) (ucast (PACK (of_nat ?m) 0)) = s3"
    unfolding ft pack_0 s3_def ..
  let ?s' = "insert_list s3 ?bp (of_nat ?m)"
  let ?s'' = "PUT ?s' (HDRP (NEXT_BLKP ?s' ?bp)) (GET ?s' (HDRP (NEXT_BLKP ?s' ?bp)) AND NOT 2)"
  have co: "coalesce s ?bp = (?bp, ?s'')"
    unfolding coalesce_def Let_def c1 c2 if_True if_False prod.case rd(3) rd(6) rd2(3) sum
      s1_def [symmetric] e2 e3 ..
  have v: "wd s3 (k - 4) = hdr ?m False True" "wd s3 (k + ?m - 8) = of_nat ?m"
    unfolding s3_def using wd_PUT_al [OF w(1) w(2) hl(1)] wd_PUT_al [OF w(2) w(2) hl(1)] w2 ne
    by simp_all
  have u1: "upd {k - 4} s1 s2" unfolding s2_def by (rule upd_PUT' [OF hl1])
  have u2: "upd {k + ?m - 8} s2 s3" unfolding s3_def by (rule upd_PUT' [OF hl(1)])
  have u13: "upd {k - 4, k + total ?mid - 8} s1 s3"
    by (rule upd_mono [OF upd_trans [OF u1 u2]]) simp
  have r3: "roots s3 = roots s1" by (simp add: s2_def s3_def PUT_frame)
  have X1: "insert (k, total ?mid) (insert (k + sz, nsz) {(k, sz)} - set (free_at k ?mid))
      = {(k, ?m)}" by auto
  have ok3: "heap_ok s3 (pre @ (?m, False, True) # post') L1 {(k, ?m)}"
    using merge_blocks [OF r(1) k _ _ _ _ cs2(5) u13 r3, of True] v cs2(2,3) s16 b(3)
    unfolding X1 by simp
  have X0: "{(k, ?m)} - {(k, ?m)} = ({} :: (nat \<times> nat) set)" by simp
  note t = coalesce_tail [OF ok3 k _ hl(2), unfolded X0]
  show "fst (coalesce s ?bp) = ?bp" unfolding co by simp
  show "heap_ok (snd (coalesce s ?bp)) (pre @ (?m, False, True) # set_pa False post')
      (L1[class_of ?m := k # L1 ! class_of ?m]) {}"
    unfolding co snd_conv using t(1) by simp
  have U: "upd (nlinks L \<union> {k - 4, k + ?m - 8} \<union> (nlinks L1 \<union> {k, k + 4} \<union> {k + ?m - 4})) s ?s''"
    using upd_trans [OF upd_trans [OF r(2) u13] t(2)] by simp
  have Sub: "nlinks L \<union> {k - 4, k + ?m - 8} \<union> (nlinks L1 \<union> {k, k + 4} \<union> {k + ?m - 4})
      \<subseteq> nlinks L \<union> {j. k - 4 \<le> j \<and> j \<le> k + sz + nsz - 4}"
  proof -
    have "nlinks L1 \<subseteq> nlinks L" unfolding L1_def by (rule nlinks_remove)
    moreover have "{k - 4, k + ?m - 8} \<union> {k, k + 4} \<union> {k + ?m - 4}
        \<subseteq> {j. k - 4 \<le> j \<and> j \<le> k + sz + nsz - 4}"
      using mb(3) b(5) by auto
    ultimately show ?thesis by blast
  qed
  show "upd (nlinks L \<union> {j. k - 4 \<le> j \<and> j \<le> k + sz + nsz - 4}) s (snd (coalesce s ?bp))"
    unfolding co snd_conv by (rule upd_mono [OF U Sub])
qed

lemma reads_prev:
  assumes hl: "heap_listp s' = heap_listp s"
    and w: "wd s' (k - 8) = of_nat psz" "8 dvd psz" "psz < 2 ^ 32" "8 \<le> k" "psz \<le> k"
  shows "PREV_BLKP s' (adr s k) = adr s (k - psz)"
  using PREV_BLKP_adr [OF w] by (simp add: adr_cong [OF hl])

lemma coalesce_case3:
  assumes ok: "heap_ok s (pre @ (psz, False, ppa) # (sz, False, False) # (nsz, True, npa) # post')
                 L {(k, sz)}"
    and kp: "kp = 8 + total pre" and k: "k = kp + psz"
  defines "L1 \<equiv> L[class_of psz := remove1 kp (L ! class_of psz)]"
  shows "fst (coalesce s (adr s k)) = adr s kp"
    and "heap_ok (snd (coalesce s (adr s k)))
           (pre @ (psz + sz, False, ppa) # (nsz, True, False) # post')
           (L1[class_of (psz + sz) := kp # L1 ! class_of (psz + sz)]) {}"
    and "upd (nlinks L \<union> {j. kp - 4 \<le> j \<and> j \<le> k + sz - 4}) s (snd (coalesce s (adr s k)))"
proof -
  let ?bp = "adr s k"
  let ?m = "psz + sz"
  let ?mid = "[(psz, False, ppa), (sz, False, False)]"
  let ?post = "(nsz, True, npa) # post'"
  note bp = heap_ok_blk [OF ok kp]
  have okk: "heap_ok s ((pre @ [(psz, False, ppa)]) @ (sz, False, False) # ?post) L {(k, sz)}"
    using ok by simp
  have kk: "k = 8 + total (pre @ [(psz, False, ppa)])" using k kp by simp
  note b = heap_ok_blk [OF okk kk]
  have okn: "heap_ok s ((pre @ ?mid) @ (nsz, True, npa) # post') L {(k, sz)}"
    using ok by simp
  have kn: "k + sz = 8 + total (pre @ ?mid)" using k kp by simp
  note bn = heap_ok_blk [OF okn kn]
  note csp = chain_split [OF heap_okD(1) [OF ok]]
  note csk = chain_split [OF heap_okD(1) [OF okk]]
  have p16: "16 \<le> psz" "16 \<le> sz" using csp(2) csk(2) .
  have k8n: "8 \<le> k + sz" using b(5) by simp
  note rd = reads [OF refl b(1,3,4,5)]
  note rdn = reads [OF refl bn(1,3,4) k8n]
  note rdp = reads [OF refl bp(1,3,4,5)]
  have kpk: "kp = k - psz" "psz \<le> k" "kp + psz - 8 = k - 8" using k p16 by simp_all
  have ftp: "wd s (k - 8) = of_nat psz" using bp(2) kpk(3) by simp
  have pv: "PREV_BLKP s ?bp = adr s kp"
    using reads_prev [OF refl ftp bp(3,4) b(5) kpk(2)] kpk(1) by simp
  have c1: "(GET_PREV_ALLOC s (HDRP ?bp) \<noteq> 0 \<and> GET_ALLOC s (HDRP (NEXT_BLKP s ?bp)) \<noteq> 0) = False"
    unfolding rd(5) by simp
  have c2: "(GET_PREV_ALLOC s (HDRP ?bp) \<noteq> 0 \<and> GET_ALLOC s (HDRP (NEXT_BLKP s ?bp)) = 0) = False"
    unfolding rd(5) by simp
  have c3: "(GET_PREV_ALLOC s (HDRP ?bp) = 0 \<and> GET_ALLOC s (HDRP (NEXT_BLKP s ?bp)) \<noteq> 0) = True"
    unfolding rd(5) rd(6) rdn(4) by simp
  have sum: "(of_nat sz + of_nat psz :: size_t) = of_nat ?m" by simp
  define s1 where "s1 = remove_list s (adr s kp) (of_nat psz)"
  define s2 where "s2 = PUT s1 (adr s (kp + ?m - 8)) (of_nat ?m)"
  define s3 where "s3 = PUT s2 (adr s (kp - 4)) (hdr ?m False ppa)"
  have nx: "(kp, psz) \<notin> {(k, sz)}" using k p16 by simp
  have r: "heap_ok s1 (pre @ ?mid @ ?post) L1 (insert (kp, psz) {(k, sz)})" "upd (nlinks L) s s1"
    using remove_block(1,2) [OF ok refl kp nx] by (simp_all add: s1_def L1_def)
  have hl1: "heap_listp s1 = heap_listp s" by (rule upd_frame(1) [OF r(2)])
  have hl: "heap_listp s2 = heap_listp s" "heap_listp s3 = heap_listp s"
    by (simp_all add: s2_def s3_def PUT_frame hl1)
  have r1p: "heap_ok s1 (pre @ (psz, False, ppa) # (sz, False, False) # ?post) L1
      (insert (kp, psz) {(k, sz)})" using r(1) by simp
  have r1k: "heap_ok s1 ((pre @ [(psz, False, ppa)]) @ (sz, False, False) # ?post) L1
      (insert (kp, psz) {(k, sz)})" using r(1) by simp
  note bp1 = heap_ok_blk [OF r1p kp]
  note b1 = heap_ok_blk [OF r1k kk]
  have mb: "?m < 2 ^ 32" "8 dvd ?m" "16 \<le> ?m" "kp + ?m < 2 ^ 32"
    using b(7) bp(3) b(3) p16 k by (simp_all add: add.assoc)
  have w: "wal (kp - 4)" "wal (kp + ?m - 8)" "wal (k - 8)"
  proof -
    have "4 dvd kp - 4" "4 dvd kp + ?m - 8" "4 dvd k - 8" using bp(5,6) b(5,6) mb(2,3) by presburger+
    then show "wal (kp - 4)" "wal (kp + ?m - 8)" "wal (k - 8)"
      using mb(4) k by (simp_all add: wal_def)
  qed
  have ne: "kp - 4 \<noteq> kp + ?m - 8" "k - 8 \<noteq> kp + ?m - 8" "k - 8 \<noteq> kp - 4"
    using bp(5) p16 k by arith+
  have ft1: "FTRP s1 ?bp = adr s (kp + ?m - 8)"
    using reads(8) [OF hl1 b1(1,3,4,5)] p16 k by (simp add: add.assoc)
  have w2: "wd s2 (k - 8) = of_nat psz" "wd s2 (kp - 4) = hdr psz False ppa"
    "wd s2 (kp + ?m - 8) = of_nat ?m"
    unfolding s2_def
    using wd_PUT_al [OF w(3) w(2) hl1] wd_PUT_al [OF w(1) w(2) hl1] wd_PUT_al [OF w(2) w(2) hl1]
      bp1(1,2) kpk(3) ne by simp_all
  have pv2: "PREV_BLKP s2 ?bp = adr s kp"
    using reads_prev [OF hl(1) w2(1) bp(3,4) b(5) kpk(2)] kpk(1) by simp
  note rdp2 = reads [OF hl(1) w2(2) bp(3,4,5)]
  have e3: "PUT s2 (HDRP (adr s kp)) (ucast (PACK (of_nat ?m) (ucast (if ppa then 2 else 0 :: uint)))) = s3"
    unfolding rdp2(1) pack_free s3_def ..
  have v: "wd s3 (kp - 4) = hdr ?m False ppa" "wd s3 (kp + ?m - 8) = of_nat ?m"
    "wd s3 (k - 8) = of_nat psz"
    unfolding s3_def
    using wd_PUT_al [OF w(1) w(1) hl(1)] wd_PUT_al [OF w(2) w(1) hl(1)]
      wd_PUT_al [OF w(3) w(1) hl(1)] w2 ne by simp_all
  have pv3: "PREV_BLKP s3 ?bp = adr s kp"
    using reads_prev [OF hl(2) v(3) bp(3,4) b(5) kpk(2)] kpk(1) by simp
  let ?s' = "insert_list s3 (adr s kp) (of_nat ?m)"
  let ?s'' = "PUT ?s' (HDRP (NEXT_BLKP ?s' (adr s kp)))
                (GET ?s' (HDRP (NEXT_BLKP ?s' (adr s kp))) AND NOT 2)"
  have co: "coalesce s ?bp = (adr s kp, ?s'')"
    unfolding coalesce_def Let_def c1 c2 c3 if_True if_False prod.case pv rdp(3) rd(3) sum
      s1_def [symmetric] ft1 pack_0 s2_def [symmetric] pv2 rdp2(5) e3 pv3 ..
  have u1: "upd {kp + ?m - 8} s1 s2" unfolding s2_def by (rule upd_PUT' [OF hl1])
  have u2: "upd {kp - 4} s2 s3" unfolding s3_def by (rule upd_PUT' [OF hl(1)])
  have u13: "upd {kp - 4, kp + total ?mid - 8} s1 s3"
    by (rule upd_mono [OF upd_trans [OF u1 u2]]) simp
  have r3: "roots s3 = roots s1" by (simp add: s2_def s3_def PUT_frame)
  have X1: "insert (kp, total ?mid) (insert (kp, psz) {(k, sz)} - set (free_at kp ?mid))
      = {(kp, ?m)}" using k by auto
  have ok3: "heap_ok s3 (pre @ (?m, False, ppa) # ?post) L1 {(kp, ?m)}"
    using merge_blocks [OF r(1) kp _ _ _ _ _ u13 r3, of ppa] v(1,2) csp(2,3) csk(2,3) k
    unfolding X1 by simp
  have X0: "{(kp, ?m)} - {(kp, ?m)} = ({} :: (nat \<times> nat) set)" by simp
  note t = coalesce_tail [OF ok3 kp _ hl(2), unfolded X0]
  show "fst (coalesce s ?bp) = adr s kp" unfolding co by simp
  show "heap_ok (snd (coalesce s ?bp)) (pre @ (?m, False, ppa) # (nsz, True, False) # post')
      (L1[class_of ?m := kp # L1 ! class_of ?m]) {}"
    unfolding co snd_conv using t(1) by simp
  have U: "upd (nlinks L \<union> {kp - 4, kp + total ?mid - 8}
      \<union> (nlinks L1 \<union> {kp, kp + 4} \<union> {kp + ?m - 4})) s ?s''"
    using upd_trans [OF upd_trans [OF r(2) u13] t(2)] by simp
  have Sub: "nlinks L \<union> {kp - 4, kp + total ?mid - 8}
      \<union> (nlinks L1 \<union> {kp, kp + 4} \<union> {kp + ?m - 4})
      \<subseteq> nlinks L \<union> {j. kp - 4 \<le> j \<and> j \<le> k + sz - 4}"
  proof -
    have "nlinks L1 \<subseteq> nlinks L" unfolding L1_def by (rule nlinks_remove)
    moreover have "{kp - 4, kp + total ?mid - 8} \<union> {kp, kp + 4} \<union> {kp + ?m - 4}
        \<subseteq> {j. kp - 4 \<le> j \<and> j \<le> k + sz - 4}"
      using mb(3) bp(5) k by auto
    ultimately show ?thesis by blast
  qed
  show "upd (nlinks L \<union> {j. kp - 4 \<le> j \<and> j \<le> k + sz - 4}) s (snd (coalesce s ?bp))"
    unfolding co snd_conv by (rule upd_mono [OF U Sub])
qed


lemma coalesce_case4:
  assumes ok: "heap_ok s (pre @ (psz, False, ppa) # (sz, False, False) # (nsz, False, npa) # post')
                 L {(k, sz)}"
    and kp: "kp = 8 + total pre" and k: "k = kp + psz"
  defines "L1 \<equiv> L[class_of nsz := remove1 (k + sz) (L ! class_of nsz)]"
  defines "L2 \<equiv> L1[class_of psz := remove1 kp (L1 ! class_of psz)]"
  shows "fst (coalesce s (adr s k)) = adr s kp"
    and "heap_ok (snd (coalesce s (adr s k)))
           (pre @ (psz + (sz + nsz), False, ppa) # set_pa False post')
           (L2[class_of (psz + (sz + nsz)) := kp # L2 ! class_of (psz + (sz + nsz))]) {}"
    and "upd (nlinks L \<union> {j. kp - 4 \<le> j \<and> j \<le> k + sz + nsz - 4}) s
           (snd (coalesce s (adr s k)))"
proof -
  let ?bp = "adr s k"
  let ?m = "psz + (sz + nsz)"
  let ?mid = "[(psz, False, ppa), (sz, False, False), (nsz, False, npa)]"
  let ?kn = "k + sz"
  note bp = heap_ok_blk [OF ok kp]
  have okk: "heap_ok s ((pre @ [(psz, False, ppa)]) @ (sz, False, False) # (nsz, False, npa) # post')
      L {(k, sz)}" using ok by simp
  have kk: "k = 8 + total (pre @ [(psz, False, ppa)])" using k kp by simp
  note b = heap_ok_blk [OF okk kk]
  let ?pre2 = "pre @ [(psz, False, ppa), (sz, False, False)]"
  have okn: "heap_ok s (?pre2 @ (nsz, False, npa) # post') L {(k, sz)}"
    using ok by simp
  have kn: "?kn = 8 + total ?pre2" using k kp by simp
  note bn = heap_ok_blk [OF okn kn]
  note csp = chain_split [OF heap_okD(1) [OF ok]]
  note csk = chain_split [OF heap_okD(1) [OF okk]]
  note csn = chain_split [OF heap_okD(1) [OF okn]]
  have p16: "16 \<le> psz" "16 \<le> sz" "16 \<le> nsz" using csp(2) csk(2) csn(2) .
  have k8n: "8 \<le> ?kn" using b(5) by simp
  note rd = reads [OF refl b(1,3,4,5)]
  note rdn = reads [OF refl bn(1,3,4) k8n]
  note rdp = reads [OF refl bp(1,3,4,5)]
  have kpk: "kp = k - psz" "psz \<le> k" "kp + psz - 8 = k - 8" using k p16 by simp_all
  have ftp: "wd s (k - 8) = of_nat psz" using bp(2) kpk(3) by simp
  have pv: "PREV_BLKP s ?bp = adr s kp"
    using reads_prev [OF refl ftp bp(3,4) b(5) kpk(2)] kpk(1) by simp
  have c1: "(GET_PREV_ALLOC s (HDRP ?bp) \<noteq> 0 \<and> GET_ALLOC s (HDRP (adr s ?kn)) \<noteq> 0) = False"
    unfolding rd(5) by simp
  have c2: "(GET_PREV_ALLOC s (HDRP ?bp) \<noteq> 0 \<and> GET_ALLOC s (HDRP (adr s ?kn)) = 0) = False"
    unfolding rd(5) by simp
  have c3: "(GET_PREV_ALLOC s (HDRP ?bp) = 0 \<and> GET_ALLOC s (HDRP (adr s ?kn)) \<noteq> 0) = False"
    unfolding rd(5) rdn(4) by simp
  have ftn: "FTRP s (adr s ?kn) = adr s (?kn + nsz - 8)"
    using rdn(8) p16 by simp
  have gsf: "GET_SIZE s (adr s (?kn + nsz - 8)) = of_nat nsz"
    using GET_SIZE_hdr [of s "?kn + nsz - 8" nsz False False] bn(2,3) by (simp add: hdr_plain)
  have mb: "?m < 2 ^ 32" "8 dvd ?m" "16 \<le> ?m" "kp + ?m < 2 ^ 32" "psz + nsz < 2 ^ 32"
    using bn(7) bp(3) b(3) bn(3) p16 k by (simp_all add: add.assoc)
  have sumu: "(ucast (of_nat psz + of_nat nsz :: uint) :: size_t) = of_nat (psz + nsz)"
    using ucast_up_of_nat [OF mb(5)] by simp
  have sum: "(of_nat sz + of_nat (psz + nsz) :: size_t) = of_nat ?m" by simp
  define s1 where "s1 = remove_list s (adr s ?kn) (of_nat nsz)"
  define s2 where "s2 = remove_list s1 (adr s kp) (of_nat psz)"
  define s3 where "s3 = PUT s2 (adr s (kp - 4)) (hdr ?m False ppa)"
  define s4 where "s4 = PUT s3 (adr s (kp + ?m - 8)) (of_nat ?m)"
  have nx1: "(?kn, nsz) \<notin> {(k, sz)}" using p16 by simp
  have r1: "heap_ok s1 (pre @ ?mid @ post') L1 (insert (?kn, nsz) {(k, sz)})" "upd (nlinks L) s s1"
    using remove_block(1,2) [OF okn refl kn nx1] by (simp_all add: s1_def L1_def)
  have hl1: "heap_listp s1 = heap_listp s" by (rule upd_frame(1) [OF r1(2)])
  note A1 = adr_cong [OF hl1]
  have r1p: "heap_ok s1 (pre @ (psz, False, ppa) # (sz, False, False) # (nsz, False, npa) # post')
      L1 (insert (?kn, nsz) {(k, sz)})" using r1(1) by simp
  note bp1 = heap_ok_blk [OF r1p kp]
  have ftp1: "wd s1 (k - 8) = of_nat psz" using bp1(2) kpk(3) by simp
  have pv1: "PREV_BLKP s1 ?bp = adr s kp"
    using reads_prev [OF hl1 ftp1 bp(3,4) b(5) kpk(2)] kpk(1) by simp
  note rdp1 = reads [OF hl1 bp1(1) bp(3,4,5)]
  have nx2: "(kp, psz) \<notin> insert (?kn, nsz) {(k, sz)}" using k p16 by simp
  have r2: "heap_ok s2 (pre @ ?mid @ post') L2 (insert (kp, psz) (insert (?kn, nsz) {(k, sz)}))"
    "upd (nlinks L1) s1 s2"
    using remove_block(1,2) [OF r1p refl kp nx2] by (simp_all add: s2_def L2_def A1)
  have hl2: "heap_listp s2 = heap_listp s" using upd_frame(1) [OF r2(2)] hl1 by simp
  have hl: "heap_listp s3 = heap_listp s" "heap_listp s4 = heap_listp s"
    by (simp_all add: s3_def s4_def PUT_frame hl2)
  have r2p: "heap_ok s2 (pre @ (psz, False, ppa) # (sz, False, False) # (nsz, False, npa) # post')
      L2 (insert (kp, psz) (insert (?kn, nsz) {(k, sz)}))" using r2(1) by simp
  have r2k: "heap_ok s2 ((pre @ [(psz, False, ppa)]) @ (sz, False, False) # (nsz, False, npa) # post')
      L2 (insert (kp, psz) (insert (?kn, nsz) {(k, sz)}))" using r2(1) by simp
  have r2n: "heap_ok s2 (?pre2 @ (nsz, False, npa) # post')
      L2 (insert (kp, psz) (insert (?kn, nsz) {(k, sz)}))" using r2(1) by simp
  note bp2 = heap_ok_blk [OF r2p kp]
  note b2 = heap_ok_blk [OF r2k kk]
  note bn2 = heap_ok_blk [OF r2n kn]
  have ftp2: "wd s2 (k - 8) = of_nat psz" using bp2(2) kpk(3) by simp
  have pv2: "PREV_BLKP s2 ?bp = adr s kp"
    using reads_prev [OF hl2 ftp2 bp(3,4) b(5) kpk(2)] kpk(1) by simp
  note rdp2 = reads [OF hl2 bp2(1) bp(3,4,5)]
  have e3: "PUT s2 (HDRP (adr s kp)) (ucast (PACK (of_nat ?m) (ucast (if ppa then 2 else 0 :: uint)))) = s3"
    unfolding rdp2(1) pack_free s3_def ..
  have w: "wal (kp - 4)" "wal (kp + ?m - 8)" "wal (k - 8)" "wal (k - 4)" "wal (?kn - 4)"
  proof -
    have "4 dvd kp - 4" "4 dvd kp + ?m - 8" "4 dvd k - 8" "4 dvd k - 4" "4 dvd ?kn - 4"
      using bp(5,6) b(3,5,6) mb(2,3) by presburger+
    then show "wal (kp - 4)" "wal (kp + ?m - 8)" "wal (k - 8)" "wal (k - 4)" "wal (?kn - 4)"
      using mb(4) k by (simp_all add: wal_def)
  qed
  have ne: "kp - 4 \<noteq> kp + ?m - 8" "k - 8 \<noteq> kp + ?m - 8" "k - 8 \<noteq> kp - 4"
    "k - 4 \<noteq> kp - 4" "?kn - 4 \<noteq> kp - 4"
    using bp(5) p16 k by arith+
  have w3: "wd s3 (kp - 4) = hdr ?m False ppa" "wd s3 (k - 8) = of_nat psz"
    "wd s3 (k - 4) = hdr sz False False" "wd s3 (?kn - 4) = hdr nsz False npa"
    unfolding s3_def
    using wd_PUT_al [OF w(1) w(1) hl2] wd_PUT_al [OF w(3) w(1) hl2] wd_PUT_al [OF w(4) w(1) hl2]
      wd_PUT_al [OF w(5) w(1) hl2] ftp2 b2(1) bn2(1) ne by simp_all
  note rd3 = reads [OF hl(1) w3(3) b(3,4,5)]
  note rdn3 = reads [OF hl(1) w3(4) bn(3,4) k8n]
  have ft3: "FTRP s3 (adr s ?kn) = adr s (kp + ?m - 8)"
    using rdn3(8) p16 k by (simp add: add.assoc)
  have v: "wd s4 (kp - 4) = hdr ?m False ppa" "wd s4 (kp + ?m - 8) = of_nat ?m"
    "wd s4 (k - 8) = of_nat psz"
    unfolding s4_def
    using wd_PUT_al [OF w(1) w(2) hl(1)] wd_PUT_al [OF w(2) w(2) hl(1)]
      wd_PUT_al [OF w(3) w(2) hl(1)] w3 ne by simp_all
  have pv4: "PREV_BLKP s4 ?bp = adr s kp"
    using reads_prev [OF hl(2) v(3) bp(3,4) b(5) kpk(2)] kpk(1) by simp
  let ?s' = "insert_list s4 (adr s kp) (of_nat ?m)"
  let ?s'' = "PUT ?s' (HDRP (NEXT_BLKP ?s' (adr s kp)))
                (GET ?s' (HDRP (NEXT_BLKP ?s' (adr s kp))) AND NOT 2)"
  have co: "coalesce s ?bp = (adr s kp, ?s'')"
    unfolding coalesce_def Let_def rd(6) c1 c2 c3 if_True if_False prod.case pv rdp(2) ftn gsf
      sumu rd(3) sum rdn(3) s1_def [symmetric] pv1 rdp1(3) s2_def [symmetric] pv2 rdp2(5) e3
      rd3(6) ft3 pack_0 s4_def [symmetric] pv4 ..
  have u1: "upd {kp - 4} s2 s3" unfolding s3_def by (rule upd_PUT' [OF hl2])
  have u2: "upd {kp + ?m - 8} s3 s4" unfolding s4_def by (rule upd_PUT' [OF hl(1)])
  have u24: "upd {kp - 4, kp + total ?mid - 8} s2 s4"
    by (rule upd_mono [OF upd_trans [OF u1 u2]]) simp
  have r4: "roots s4 = roots s2" by (simp add: s3_def s4_def PUT_frame)
  have X1: "insert (kp, total ?mid)
      (insert (kp, psz) (insert (?kn, nsz) {(k, sz)}) - set (free_at kp ?mid)) = {(kp, ?m)}"
    using k by auto
  have ok4: "heap_ok s4 (pre @ (?m, False, ppa) # post') L2 {(kp, ?m)}"
    using merge_blocks [OF r2(1) kp _ _ _ _ csn(5) u24 r4, of ppa] v(1,2) csp(2,3) csk(2,3)
      csn(2,3) k
    unfolding X1 by simp
  have X0: "{(kp, ?m)} - {(kp, ?m)} = ({} :: (nat \<times> nat) set)" by simp
  note t = coalesce_tail [OF ok4 kp _ hl(2), unfolded X0]
  show "fst (coalesce s ?bp) = adr s kp" unfolding co by simp
  show "heap_ok (snd (coalesce s ?bp)) (pre @ (?m, False, ppa) # set_pa False post')
      (L2[class_of ?m := kp # L2 ! class_of ?m]) {}"
    unfolding co snd_conv using t(1) by simp
  have U: "upd (nlinks L \<union> nlinks L1 \<union> {kp - 4, kp + total ?mid - 8}
      \<union> (nlinks L2 \<union> {kp, kp + 4} \<union> {kp + ?m - 4})) s ?s''"
    using upd_trans [OF upd_trans [OF upd_trans [OF r1(2) r2(2)] u24] t(2)] by simp
  have Sub: "nlinks L \<union> nlinks L1 \<union> {kp - 4, kp + total ?mid - 8}
      \<union> (nlinks L2 \<union> {kp, kp + 4} \<union> {kp + ?m - 4})
      \<subseteq> nlinks L \<union> {j. kp - 4 \<le> j \<and> j \<le> k + sz + nsz - 4}"
  proof -
    have "nlinks L1 \<subseteq> nlinks L" unfolding L1_def by (rule nlinks_remove)
    moreover have "nlinks L2 \<subseteq> nlinks L1" unfolding L2_def by (rule nlinks_remove)
    moreover have "{kp - 4, kp + total ?mid - 8} \<union> {kp, kp + 4} \<union> {kp + ?m - 4}
        \<subseteq> {j. kp - 4 \<le> j \<and> j \<le> k + sz + nsz - 4}"
      using mb(3) bp(5) k by auto
    ultimately show ?thesis by blast
  qed
  show "upd (nlinks L \<union> {j. kp - 4 \<le> j \<and> j \<le> k + sz + nsz - 4}) s (snd (coalesce s ?bp))"
    unfolding co snd_conv by (rule upd_mono [OF U Sub])
qed

section \<open>Placement and coalescing on a well-formed arena\<close>

lemmas heap_eval = heap_ok_def lists_ok_def listed_def all_less_10 nodes_ok_def roots_def
  wd_def adr_def GET_def load32_words load32_const hdr_def class_of_def total_def

lemma heap_ok_init: "heap_ok heap_init [(4096, False, True), (0, True, False)]
    [[], [], [], [], [], [], [], [], [8], []] {}"
  by (simp add: heap_eval heap_init_def)

lemma heap_ok_rs1: "heap_ok rs1 [(16, True, True), (4080, False, True), (0, True, False)]
    [[], [], [], [], [], [], [], [], [24], []] {}"
  by (simp add: heap_eval rs1_def)

lemma run_place: "place heap_init 0x10010 16 = rs1"
  by (simp add: eval_defs heap_init_def rs1_def cong: eval_cong)

lemma heap_ok_rs1_freed:
  "heap_ok (PUT (PUT rs1 0x1000C 18) 0x10018 16)
     [(16, False, True), (4080, False, True), (0, True, False)]
     [[], [], [], [], [], [], [], [], [24], []] {(8, 16)}"
  by (simp add: heap_eval rs1_def PUT_def store32_words)

lemma not_in_nodes:
  assumes ok: "heap_ok s (pre @ (sz, True, pa) # post) L {}" and k: "k = 8 + total pre"
    and s: "16 \<le> sz"
  shows "k \<notin> nodes L"
proof
  note h = heap_okD [OF ok]
  assume "k \<in> nodes L"
  then have "k \<in> fst ` (set (free_at 8 (pre @ (sz, True, pa) # post)) - {})"
    using listed_nodes [OF h(6)] by simp
  then obtain z where z: "(k, z) \<in> set (free_at 8 (pre @ (sz, True, pa) # post))" by force
  have "16 \<le> z" using free_at_range [OF h(7) z] by simp
  with free_at_mid [OF h(7) z] k s show False by auto
qed

text \<open>
  Claim C6.  Let the arena be the chain \<open>pre @ (csz, False, pa) # post\<close> with buckets
  \<open>L\<close>, so that the block at offset \<open>k\<close> is free, has \<open>csz\<close> bytes and is listed, and let
  \<open>asz\<close> be an adjusted request (at least 16, a multiple of 8) with \<open>asz \<le> csz\<close>.
  \<open>place\<close> unlinks the block from the bucket of \<open>csz\<close>.  If the rest has at least 16
  bytes, the chain then holds an allocated block of \<open>asz\<close> bytes followed by a free
  block of \<open>csz - asz\<close> bytes that heads the bucket of its size; otherwise the whole block
  of \<open>csz\<close> bytes is allocated and the header of the block after it has its
  \<open>prev_alloc\<close> bit set.  In both cases the placed block is in no bucket afterwards.
\<close>

theorem C6_place:
  assumes ok: "heap_ok s (pre @ (csz, False, pa) # post) L {}"
    and k: "k = 8 + total pre"
    and a: "16 \<le> asz" "8 dvd asz" "asz \<le> csz"
  defines "L1 \<equiv> L[class_of csz := remove1 k (L ! class_of csz)]"
  defines "L2 \<equiv> L1[class_of (csz - asz) := (k + asz) # L1 ! class_of (csz - asz)]"
  shows "k \<in> set (L ! class_of csz)
    \<and> (if 16 \<le> csz - asz
       then heap_ok (place s (adr s k) (of_nat asz))
              (pre @ (asz, True, pa) # (csz - asz, False, True) # post) L2 {}
            \<and> k \<notin> nodes L2
       else heap_ok (place s (adr s k) (of_nat asz))
              (pre @ (csz, True, pa) # set_pa True post) L1 {}
            \<and> k \<notin> nodes L1)"
proof -
  have fr: "(k, csz) \<in> set (free_at 8 (pre @ (csz, False, pa) # post)) - {}"
    using free_at_in [of 8 pre csz pa post] k by simp
  have 1: "k \<in> set (L ! class_of csz)"
    by (rule listed_in [OF heap_okD(6) [OF ok] fr])
  note cs = chain_split [OF heap_okD(1) [OF ok]]
  show ?thesis
  proof (cases "16 \<le> csz - asz")
    case True
    then have a3: "asz + 16 \<le> csz" using a(3) by simp
    note p = place_split(1) [OF ok k a(1,2) a3, folded L1_def]
    from p not_in_nodes [OF p k a(1)] 1 True show ?thesis unfolding L2_def by simp
  next
    case False
    then have a4: "csz - asz < 16" by simp
    note p = place_whole(1) [OF ok k a(3) a4, folded L1_def]
    from p not_in_nodes [OF p k cs(2)] 1 False show ?thesis by simp
  qed
qed

text \<open>
  The theorem of C6 on the arena right after initialisation, whose only block is the free
  chunk of 4096 bytes at \<open>0x10010\<close>: a request of 16 bytes splits it (the result is the
  arena \<open>rs1\<close>), a request of 4088 bytes takes it whole.
\<close>

theorem C6_place_witness:
  "heap_ok heap_init ([] @ (4096, False, True) # [(0, True, False)])
     [[], [], [], [], [], [], [], [], [8], []] {}
   \<and> (8 :: nat) = 8 + total [] \<and> adr heap_init 8 = 0x10010
   \<and> place heap_init 0x10010 16 = rs1
   \<and> heap_ok rs1 [(16, True, True), (4080, False, True), (0, True, False)]
         [[], [], [], [], [], [], [], [], [24], []] {}
   \<and> 24 \<notin> nodes [[], [], [], [], [], [], [], [], [], []]
   \<and> heap_ok (place heap_init 0x10010 4088) [(4096, True, True), (0, True, True)]
         [[], [], [], [], [], [], [], [], [], []] {}"
proof -
  have h: "heap_ok heap_init ([] @ (4096, False, True) # [(0, True, False)])
      [[], [], [], [], [], [], [], [], [8], []] {}"
    using heap_ok_init by simp
  have k: "(8 :: nat) = 8 + total []" by simp
  have a: "adr heap_init 8 = 0x10010" by (simp add: adr_def heap_init_def)
  have n: "24 \<notin> nodes [[], [], [], [], [], [], [], [], [], []]"
    by (simp add: nodes_def all_less_10)
  show ?thesis
    using C6_place [OF h k, of 16] C6_place [OF h k, of 4088] h a n
    by (simp add: class_of_def run_place)
qed


lemma pa_ok_append:
  "pa_ok p (xs @ ys) \<longleftrightarrow> pa_ok p xs \<and> pa_ok (if xs = [] then p else fst (snd (last xs))) ys"
  by (induction xs arbitrary: p) auto

text \<open>
  Claim C7.  Let \<open>bp\<close> be the block at offset \<open>k\<close>, marked free in the chain but in no
  bucket, with accurate \<open>prev_alloc\<close> bits up to \<open>bp\<close>.  \<open>P\<close> is the physical predecessor
  when it is free (and empty when the predecessor is allocated or is the prologue), \<open>N\<close>
  the physical successor when it is free (and empty when the successor is allocated).
  \<open>coalesce\<close> returns the address of \<open>bp\<close> when \<open>P\<close> is empty and the address of the
  predecessor otherwise; the blocks \<open>P\<close>, \<open>bp\<close> and \<open>N\<close> become one free block whose size
  is the sum of theirs; the successor and the predecessor, when absorbed, are unlinked from
  the buckets of their sizes; the merged block heads the bucket of its size, every
  bucket remains a list without repetition and no block is in two buckets; and the
  \<open>prev_alloc\<close> bit of the block after the merged one is clear.
\<close>

theorem C7_coalesce:
  assumes ok: "heap_ok s (pre @ P @ (sz, False, pa) # N @ post) L {(k, sz)}"
    and bits: "pa_ok True (pre @ P @ [(sz, False, pa)])"
    and kp: "kp = 8 + total pre" and k: "k = kp + total P"
    and P: "P = [] \<and> (pre = [] \<or> fst (snd (last pre))) \<or> (\<exists>psz ppa. P = [(psz, False, ppa)])"
    and N: "N = [] \<and> fst (snd (hd post)) \<or> (\<exists>nsz npa. N = [(nsz, False, npa)])"
  defines "L1 \<equiv> (if N = [] then L
                  else L[class_of (total N) := remove1 (k + sz) (L ! class_of (total N))])"
  defines "L2 \<equiv> (if P = [] then L1
                  else L1[class_of (total P) := remove1 kp (L1 ! class_of (total P))])"
  defines "m \<equiv> total P + (sz + total N)"
  shows "fst (coalesce s (adr s k)) = adr s kp
    \<and> heap_ok (snd (coalesce s (adr s k)))
        (pre @ (m, False, if P = [] then True else snd (snd (hd P))) # set_pa False post)
        (L2[class_of m := kp # L2 ! class_of m]) {}"
proof -
  have np: "N @ post \<noteq> []"
    using chain_split(5) [of "pre @ P" sz pa "N @ post"] heap_okD(1) [OF ok] by simp
  from P consider (alloc) "P = []" "pre = [] \<or> fst (snd (last pre))"
    | (free) psz ppa where "P = [(psz, False, ppa)]" by blast
  then show ?thesis
  proof cases
    case alloc
    note P0 = alloc(1)
    have pa: "pa" using bits alloc by (auto simp: pa_ok_append)
    have k': "k = 8 + total pre" using k kp P0 by simp
    from N consider (nalloc) "N = []" "fst (snd (hd post))"
      | (nfree) nsz npa where "N = [(nsz, False, npa)]" by blast
    then show ?thesis
    proof cases
      case nalloc
      note N0 = nalloc(1)
      obtain nsz npa post' where post: "post = (nsz, True, npa) # post'"
        using np nalloc by (cases post) auto
      have ok': "heap_ok s (pre @ (sz, False, True) # (nsz, True, npa) # post') L {(k, sz)}"
        using ok pa by (simp add: P0 N0 post)
      from coalesce_case1 (1,2) [OF ok' k'] show ?thesis
        unfolding L1_def L2_def m_def by (simp add: P0 N0 post k' kp)
    next
      case nfree
      note N1 = nfree
      have ok': "heap_ok s (pre @ (sz, False, True) # (nsz, False, npa) # post) L {(k, sz)}"
        using ok pa by (simp add: P0 N1)
      from coalesce_case2 (1,2) [OF ok' k'] show ?thesis
        unfolding L1_def L2_def m_def by (simp add: P0 N1 k' kp)
    qed
  next
    case free
    note P1 = free
    have pa: "\<not> pa" using bits P1 by (auto simp: pa_ok_append)
    have k': "k = kp + psz" using k P1 by simp
    from N consider (nalloc) "N = []" "fst (snd (hd post))"
      | (nfree) nsz npa where "N = [(nsz, False, npa)]" by blast
    then show ?thesis
    proof cases
      case nalloc
      note N0 = nalloc(1)
      obtain nsz npa post' where post: "post = (nsz, True, npa) # post'"
        using np nalloc by (cases post) auto
      have ok': "heap_ok s (pre @ (psz, False, ppa) # (sz, False, False) # (nsz, True, npa) # post')
          L {(k, sz)}"
        using ok pa by (simp add: P1 N0 post)
      from coalesce_case3 (1,2) [OF ok' kp k'] show ?thesis
        unfolding L1_def L2_def m_def by (simp add: P1 N0 post)
    next
      case nfree
      note N1 = nfree
      have ok': "heap_ok s (pre @ (psz, False, ppa) # (sz, False, False) # (nsz, False, npa) # post)
          L {(k, sz)}"
        using ok pa by (simp add: P1 N1)
      from coalesce_case4 (1,2) [OF ok' kp k'] show ?thesis
        unfolding L1_def L2_def m_def by (simp add: P1 N1)
    qed
  qed
qed

text \<open>
  The theorem of C7 on the arena \<open>rs1\<close> in which the allocated block at \<open>0x10010\<close> has
  been marked free by the two stores of \<open>free\<close>: the predecessor is the prologue, the
  successor is the free block of 4080 bytes, and \<open>coalesce\<close> merges the two blocks into
  the chunk of 4096 bytes.
\<close>

theorem C7_coalesce_witness:
  "heap_ok (PUT (PUT rs1 0x1000C 18) 0x10018 16)
     ([] @ [] @ (16, False, True) # [(4080, False, True)] @ [(0, True, False)])
     [[], [], [], [], [], [], [], [], [24], []] {(8, 16)}
   \<and> pa_ok True ([] @ [] @ [(16, False, True)])
   \<and> adr (PUT (PUT rs1 0x1000C 18) 0x10018 16) 8 = 0x10010
   \<and> fst (coalesce (PUT (PUT rs1 0x1000C 18) 0x10018 16) 0x10010) = 0x10010
   \<and> heap_ok (snd (coalesce (PUT (PUT rs1 0x1000C 18) 0x10018 16) 0x10010))
        [(4096, False, True), (0, True, False)]
        [[], [], [], [], [], [], [], [], [8], []] {}"
proof -
  let ?s = "PUT (PUT rs1 0x1000C 18) 0x10018 16"
  have h: "heap_ok ?s ([] @ [] @ (16, False, True) # [(4080, False, True)] @ [(0, True, False)])
      [[], [], [], [], [], [], [], [], [24], []] {(8, 16)}"
    using heap_ok_rs1_freed by simp
  have b: "pa_ok True ([] @ [] @ [(16, False, True)])" by simp
  have k: "(8 :: nat) = 8 + total []" "(8 :: nat) = 8 + total []" by simp_all
  have a: "adr ?s 8 = 0x10010" by (simp add: adr_def rs1_def PUT_frame)
  have P: "([] :: blk list) = [] \<and> (([] :: blk list) = [] \<or> fst (snd (last ([] :: blk list))))
      \<or> (\<exists>psz ppa. ([] :: blk list) = [(psz, False, ppa)])" by simp
  have N: "[(4080, False, True)] = ([] :: blk list) \<and> fst (snd (hd [(0 :: nat, True, False)]))
      \<or> (\<exists>nsz npa. [(4080 :: nat, False, True)] = [(nsz, False, npa)])" by blast
  show ?thesis
    using C7_coalesce [OF h b k P N] h b a by (simp add: class_of_def)
qed

end
